theory Spec2Isabelle
  imports Main "HOL-Library.Word"
begin

unbundle bit_operations_syntax

section \<open>Objects, pointers and the heap\<close>

text \<open>
  The header \<^verbatim>\<open>include/oneapi/tbb/detail/_task_handle.h\<close> is embedded with
  explicit state passing over a typed heap. A pointer is a 64-bit word
  (\<^verbatim>\<open>std::uintptr_t\<close>); every class of the header has its own store, a partial map
  from addresses to objects. Reading through a null or an unallocated pointer is
  undefined behaviour in C++; here it is an error value. The model runs one
  operation at a time: the atomics are read and written in program order, and a
  compare-exchange is the comparison and the store in one step.
\<close>

type_synonym ptr = "64 word"

definition nullptr :: ptr where
  "nullptr = 0"

text \<open>\<^verbatim>\<open>static constexpr successor_list_state_flag COMPLETED_FLAG = ~std::uintptr_t(0)\<close>\<close>

definition COMPLETED_FLAG :: ptr where
  "COMPLETED_FLAG = NOT 0"

datatype error =
    Assertion_failed string
  | Null_dereference
  | Invalid_access ptr
  | Bad_alloc

text \<open>\<^verbatim>\<open>class successor_list_node\<close>: \<open>m_next_successor\<close> and \<open>m_continuation_vertex\<close>
  (here \<open>node_continuation_vertex\<close>, the name is taken by the field of the dynamic state).\<close>

record successor_list_node =
  m_next_successor :: ptr
  node_continuation_vertex :: ptr

text \<open>\<^verbatim>\<open>class continuation_vertex : public d1::reference_vertex\<close>: the inherited
  \<open>m_ref_count\<close> (a \<^verbatim>\<open>std::atomic<std::uint64_t>\<close>) and \<open>m_task\<close> (here \<open>vertex_task\<close>).\<close>

record continuation_vertex =
  m_ref_count :: "64 word"
  vertex_task :: ptr

text \<open>\<^verbatim>\<open>class task_dynamic_state\<close>\<close>

record task_dynamic_state =
  m_task :: ptr
  m_successor_list_head :: ptr
  m_continuation_vertex :: ptr
  m_new_dynamic_state :: ptr
  m_num_references :: "64 word"

text \<open>\<^verbatim>\<open>class task_handle_task\<close>: of its fields only \<open>m_dynamic_state\<close> is read by the
  operations embedded here.\<close>

record task_handle_task =
  m_dynamic_state :: ptr

text \<open>\<^verbatim>\<open>class task_completion_handle\<close>\<close>

record task_completion_handle =
  m_task_state :: ptr

text \<open>
  The heap. \<open>free_list\<close> is the pool of \<^verbatim>\<open>d1::small_object_allocator\<close>, \<open>spawned\<close> the
  log of the calls of \<^verbatim>\<open>d1::spawn\<close> (oldest first), \<open>completion_handles\<close> the
  \<^verbatim>\<open>task_completion_handle\<close> objects by address, and \<open>TBB_USE_ASSERT\<close> tells whether
  \<^verbatim>\<open>__TBB_ASSERT\<close> is compiled in (a debug build).
\<close>

record heap =
  nodes :: "ptr \<rightharpoonup> successor_list_node"
  vertices :: "ptr \<rightharpoonup> continuation_vertex"
  states :: "ptr \<rightharpoonup> task_dynamic_state"
  tasks :: "ptr \<rightharpoonup> task_handle_task"
  completion_handles :: "ptr \<rightharpoonup> task_completion_handle"
  free_list :: "ptr list"
  spawned :: "ptr list"
  TBB_USE_ASSERT :: bool

definition deref :: "(ptr \<rightharpoonup> 'a) \<Rightarrow> ptr \<Rightarrow> error + 'a" where
  "deref store p =
     (if p = nullptr then Inl Null_dereference
      else case store p of None \<Rightarrow> Inl (Invalid_access p) | Some obj \<Rightarrow> Inr obj)"

text \<open>\<^verbatim>\<open>__TBB_ASSERT(cond, msg)\<close>: checked in a debug build, nothing otherwise.\<close>

definition TBB_ASSERT :: "bool \<Rightarrow> string \<Rightarrow> heap \<Rightarrow> error + unit" where
  "TBB_ASSERT cond msg h =
     (if TBB_USE_ASSERT h \<and> \<not> cond then Inl (Assertion_failed msg) else Inr ())"

text \<open>
  Modelled from the spec: \<^verbatim>\<open>d1::small_object_allocator\<close> is declared in
  \<^verbatim>\<open>_small_object_pool.h\<close>, which is not part of the sources. The spec gives its
  interface (allocate and free of fixed-size control blocks, a failure is propagated
  to the caller before any state is changed). \<open>new_object\<close> hands out the next
  address of the pool; \<open>delete_object\<close> is the removal from the store, written at
  each place of use.
\<close>

definition new_object :: "heap \<Rightarrow> error + (ptr \<times> heap)" where
  "new_object h =
     (case free_list h of
        [] \<Rightarrow> Inl Bad_alloc
      | p # rest \<Rightarrow> Inr (p, h\<lparr>free_list := rest\<rparr>))"

text \<open>Modelled from the spec: \<^verbatim>\<open>d1::spawn(task, ctx)\<close> is the scheduler's entry point;
  only the fact of the call is recorded.\<close>

definition spawn :: "ptr \<Rightarrow> heap \<Rightarrow> heap" where
  "spawn t h = h\<lparr>spawned := spawned h @ [t]\<rparr>"

section \<open>successor\_list\_node\<close>

definition successor_list_node_ctor :: "ptr \<Rightarrow> successor_list_node" where
  "successor_list_node_ctor successor =
     \<lparr>m_next_successor = nullptr, node_continuation_vertex = successor\<rparr>"

definition node_get_continuation_vertex :: "ptr \<Rightarrow> heap \<Rightarrow> error + ptr" where
  "node_get_continuation_vertex this h =
     (case deref (nodes h) this of Inl e \<Rightarrow> Inl e
      | Inr n \<Rightarrow> Inr (node_continuation_vertex n))"

definition get_next_node :: "ptr \<Rightarrow> heap \<Rightarrow> error + ptr" where
  "get_next_node this h =
     (case deref (nodes h) this of Inl e \<Rightarrow> Inl e
      | Inr n \<Rightarrow> Inr (m_next_successor n))"

definition set_next_node :: "ptr \<Rightarrow> ptr \<Rightarrow> heap \<Rightarrow> error + heap" where
  "set_next_node this next_node h =
     (case deref (nodes h) this of Inl e \<Rightarrow> Inl e
      | Inr n \<Rightarrow> Inr (h\<lparr>nodes := (nodes h)(this \<mapsto> n\<lparr>m_next_successor := next_node\<rparr>)\<rparr>))"

definition node_finalize :: "ptr \<Rightarrow> heap \<Rightarrow> error + heap" where
  "node_finalize this h =
     (case deref (nodes h) this of Inl e \<Rightarrow> Inl e
      | Inr n \<Rightarrow> Inr (h\<lparr>nodes := (nodes h)(this := None)\<rparr>))"

section \<open>task\_dynamic\_state: construction, flags, reference count\<close>

definition task_dynamic_state_ctor :: "ptr \<Rightarrow> task_dynamic_state" where
  "task_dynamic_state_ctor task =
     \<lparr>m_task = task, m_successor_list_head = nullptr, m_continuation_vertex = nullptr,
      m_new_dynamic_state = nullptr, m_num_references = 1\<rparr>"

definition reserve :: "ptr \<Rightarrow> heap \<Rightarrow> error + heap" where
  "reserve this h =
     (case deref (states h) this of Inl e \<Rightarrow> Inl e
      | Inr s \<Rightarrow> Inr (h\<lparr>states := (states h)(this \<mapsto> s\<lparr>m_num_references := m_num_references s + 1\<rparr>)\<rparr>))"

definition has_dependencies :: "ptr \<Rightarrow> heap \<Rightarrow> error + bool" where
  "has_dependencies this h =
     (case deref (states h) this of Inl e \<Rightarrow> Inl e
      | Inr s \<Rightarrow> Inr (m_continuation_vertex s \<noteq> nullptr))"

definition unset_dependency :: "ptr \<Rightarrow> heap \<Rightarrow> error + heap" where
  "unset_dependency this h =
     (case deref (states h) this of Inl e \<Rightarrow> Inl e
      | Inr s \<Rightarrow> Inr (h\<lparr>states := (states h)(this \<mapsto> s\<lparr>m_continuation_vertex := nullptr\<rparr>)\<rparr>))"

definition is_completed :: "ptr \<Rightarrow> bool" where
  "is_completed node \<longleftrightarrow> node = COMPLETED_FLAG"

text \<open>Modelled from the spec: \<^verbatim>\<open>is_alive\<close> is called by
  \<^verbatim>\<open>check_transfer_or_completion\<close> and declared nowhere in the sources; the spec
  defines it as \<open>is_alive(p) \<equiv> p != COMPLETED\<close>.\<close>

definition is_alive :: "ptr \<Rightarrow> bool" where
  "is_alive node \<longleftrightarrow> node \<noteq> COMPLETED_FLAG"

definition fetch_successor_list :: "ptr \<Rightarrow> ptr \<Rightarrow> heap \<Rightarrow> error + (ptr \<times> heap)" where
  "fetch_successor_list this new_list_state_flag h =
     (case deref (states h) this of Inl e \<Rightarrow> Inl e
      | Inr s \<Rightarrow>
          Inr (m_successor_list_head s,
               h\<lparr>states := (states h)(this \<mapsto> s\<lparr>m_successor_list_head := new_list_state_flag\<rparr>)\<rparr>))"

section \<open>task\_handle\_task::get\_dynamic\_state\<close>

text \<open>\<^verbatim>\<open>m_dynamic_state.compare_exchange_strong(expected, desired)\<close>: the result and the
  value left in \<open>expected\<close>.\<close>

definition cas_dynamic_state :: "ptr \<Rightarrow> ptr \<Rightarrow> ptr \<Rightarrow> heap \<Rightarrow> error + ((bool \<times> ptr) \<times> heap)" where
  "cas_dynamic_state this expected desired h =
     (case deref (tasks h) this of Inl e \<Rightarrow> Inl e
      | Inr t \<Rightarrow>
          if m_dynamic_state t = expected
          then Inr ((True, expected), h\<lparr>tasks := (tasks h)(this \<mapsto> t\<lparr>m_dynamic_state := desired\<rparr>)\<rparr>)
          else Inr ((False, m_dynamic_state t), h))"

definition get_dynamic_state :: "ptr \<Rightarrow> heap \<Rightarrow> error + (ptr \<times> heap)" where
  "get_dynamic_state this h =
     (case deref (tasks h) this of Inl e \<Rightarrow> Inl e
      | Inr t \<Rightarrow>
          let current_state = m_dynamic_state t in
          if current_state = nullptr then
            (case new_object h of Inl e \<Rightarrow> Inl e
             | Inr (new_state, h1) \<Rightarrow>
                 let h2 = h1\<lparr>states := (states h1)(new_state \<mapsto> task_dynamic_state_ctor this)\<rparr> in
                 (case cas_dynamic_state this current_state new_state h2 of Inl e \<Rightarrow> Inl e
                  | Inr ((True, _), h3) \<Rightarrow>
                      (case TBB_ASSERT (new_state \<noteq> nullptr) ''Failed to create dynamic state'' h3 of
                         Inl e \<Rightarrow> Inl e | Inr _ \<Rightarrow> Inr (new_state, h3))
                  | Inr ((False, current_state'), h3) \<Rightarrow>
                      let h4 = h3\<lparr>states := (states h3)(new_state := None)\<rparr> in
                      (case TBB_ASSERT (current_state' \<noteq> nullptr) ''Failed to create dynamic state'' h4 of
                         Inl e \<Rightarrow> Inl e | Inr _ \<Rightarrow> Inr (current_state', h4))))
          else
            (case TBB_ASSERT (current_state \<noteq> nullptr) ''Failed to create dynamic state'' h of
               Inl e \<Rightarrow> Inl e | Inr _ \<Rightarrow> Inr (current_state, h)))"

section \<open>continuation\_vertex\<close>

text \<open>The constructor passes the count 1 to \<^verbatim>\<open>d1::reference_vertex(nullptr, 1)\<close>: the
  reservation of the task handle that owns the task.\<close>

definition continuation_vertex_ctor :: "ptr \<Rightarrow> continuation_vertex" where
  "continuation_vertex_ctor task = \<lparr>m_ref_count = 1, vertex_task = task\<rparr>"

definition release_bypass :: "ptr \<Rightarrow> 32 word \<Rightarrow> heap \<Rightarrow> error + (ptr \<times> heap)" where
  "release_bypass this delta h =
     (case deref (vertices h) this of Inl e \<Rightarrow> Inl e
      | Inr v \<Rightarrow>
          let ref = m_ref_count v - ucast delta;
              h1 = h\<lparr>vertices := (vertices h)(this \<mapsto> v\<lparr>m_ref_count := ref\<rparr>)\<rparr>
          in if ref = 0 then
               (case get_dynamic_state (vertex_task v) h1 of Inl e \<Rightarrow> Inl e
                | Inr (st, h2) \<Rightarrow>
                    (case unset_dependency st h2 of Inl e \<Rightarrow> Inl e
                     | Inr h3 \<Rightarrow>
                         Inr (vertex_task v, h3\<lparr>vertices := (vertices h3)(this := None)\<rparr>)))
             else Inr (nullptr, h1))"

text \<open>
  Modelled from the spec: \<^verbatim>\<open>reserve()\<close> and \<^verbatim>\<open>release()\<close> of the base class
  \<^verbatim>\<open>d1::reference_vertex\<close> are declared in \<^verbatim>\<open>_task.h\<close>, which is not part of the
  sources. The spec: reserve is a fetch-add of one on the count; release is a
  fetch-sub of one and, if the resulting value is zero, frees the vertex without
  scheduling.
\<close>

definition vertex_reserve :: "ptr \<Rightarrow> heap \<Rightarrow> error + heap" where
  "vertex_reserve this h =
     (case deref (vertices h) this of Inl e \<Rightarrow> Inl e
      | Inr v \<Rightarrow> Inr (h\<lparr>vertices := (vertices h)(this \<mapsto> v\<lparr>m_ref_count := m_ref_count v + 1\<rparr>)\<rparr>))"

definition vertex_release :: "ptr \<Rightarrow> heap \<Rightarrow> error + heap" where
  "vertex_release this h =
     (case deref (vertices h) this of Inl e \<Rightarrow> Inl e
      | Inr v \<Rightarrow>
          let ref = m_ref_count v - 1 in
          if ref = 0 then Inr (h\<lparr>vertices := (vertices h)(this := None)\<rparr>)
          else Inr (h\<lparr>vertices := (vertices h)(this \<mapsto> v\<lparr>m_ref_count := ref\<rparr>)\<rparr>))"


section \<open>Basic facts about the heap primitives\<close>

lemma deref_Inr: "deref store p = Inr obj \<longleftrightarrow> p \<noteq> nullptr \<and> store p = Some obj"
  by (simp add: deref_def split: option.splits)

lemma deref_Some: "p \<noteq> nullptr \<Longrightarrow> store p = Some obj \<Longrightarrow> deref store p = Inr obj"
  by (simp add: deref_def)

lemma deref_nullptr: "deref store nullptr = Inl Null_dereference"
  by (simp add: deref_def)

lemma get_dynamic_state_existing:
  assumes "this \<noteq> nullptr" and "tasks h this = Some t" and "m_dynamic_state t \<noteq> nullptr"
  shows "get_dynamic_state this h = Inr (m_dynamic_state t, h)"
  using assms by (simp add: get_dynamic_state_def deref_Some TBB_ASSERT_def)

lemma get_dynamic_state_fresh:
  assumes "this \<noteq> nullptr" and "tasks h this = Some t" and "m_dynamic_state t = nullptr"
    and "free_list h = a # rest" and "a \<noteq> nullptr"
  shows "get_dynamic_state this h =
           Inr (a, h\<lparr>free_list := rest,
                    states := (states h)(a \<mapsto> task_dynamic_state_ctor this),
                    tasks := (tasks h)(this \<mapsto> t\<lparr>m_dynamic_state := a\<rparr>)\<rparr>)"
  using assms
  by (simp add: get_dynamic_state_def deref_Some TBB_ASSERT_def new_object_def
      cas_dynamic_state_def Let_def)

section \<open>continuation\_vertex::release\_bypass\<close>

text \<open>
  C7. For a continuation vertex with count \<open>r\<close> and a delta \<open>d \<le> r\<close>,
  \<open>release_bypass\<close> subtracts \<open>d\<close> from the count. If the result is not zero it
  returns null and changes nothing but the count (nothing is spawned). If the result
  is zero it clears \<open>m_continuation_vertex\<close> of the dynamic state of the vertex's task,
  deletes the vertex and returns the task; a task that has no dynamic state yet gets
  a new one from \<open>get_dynamic_state\<close> first.
\<close>

theorem release_bypass_subtracts_and_releases:
  assumes vertex: "this \<noteq> nullptr" "vertices h this = Some v"
    and delta: "ucast delta \<le> m_ref_count v"
  shows "(m_ref_count v \<noteq> ucast delta \<longrightarrow>
            release_bypass this delta h =
              Inr (nullptr,
                   h\<lparr>vertices := (vertices h)(this \<mapsto> v\<lparr>m_ref_count := m_ref_count v - ucast delta\<rparr>)\<rparr>)
            \<and> unat (m_ref_count v - ucast delta) = unat (m_ref_count v) - unat delta)
       \<and> (m_ref_count v = ucast delta \<longrightarrow>
            (\<forall>t s. vertex_task v \<noteq> nullptr \<and> tasks h (vertex_task v) = Some t
                 \<and> m_dynamic_state t \<noteq> nullptr \<and> states h (m_dynamic_state t) = Some s \<longrightarrow>
               release_bypass this delta h =
                 Inr (vertex_task v,
                      h\<lparr>states := (states h)(m_dynamic_state t \<mapsto> s\<lparr>m_continuation_vertex := nullptr\<rparr>),
                        vertices := (vertices h)(this := None)\<rparr>))
          \<and> (\<forall>t a rest. vertex_task v \<noteq> nullptr \<and> tasks h (vertex_task v) = Some t
                 \<and> m_dynamic_state t = nullptr \<and> free_list h = a # rest \<and> a \<noteq> nullptr \<longrightarrow>
               release_bypass this delta h =
                 Inr (vertex_task v,
                      h\<lparr>free_list := rest,
                        states := (states h)(a \<mapsto> task_dynamic_state_ctor (vertex_task v)),
                        tasks := (tasks h)(vertex_task v \<mapsto> t\<lparr>m_dynamic_state := a\<rparr>),
                        vertices := (vertices h)(this := None)\<rparr>)))"
proof (intro conjI impI allI)
  assume "m_ref_count v \<noteq> ucast delta"
  then show "release_bypass this delta h =
      Inr (nullptr, h\<lparr>vertices := (vertices h)(this \<mapsto> v\<lparr>m_ref_count := m_ref_count v - ucast delta\<rparr>)\<rparr>)"
    using vertex by (simp add: release_bypass_def deref_Some Let_def)
next
  have "unat delta < 2 ^ 32"
    using unsigned_less [of delta] by simp
  then have "unat delta < 2 ^ 64"
    by simp
  then have "unat (ucast delta :: 64 word) = unat delta"
    by (simp add: unsigned_ucast_eq take_bit_nat_eq_self)
  then show "unat (m_ref_count v - ucast delta) = unat (m_ref_count v) - unat delta"
    using delta by (simp add: unat_sub)
next
  fix t s
  assume zero: "m_ref_count v = ucast delta"
    and "vertex_task v \<noteq> nullptr \<and> tasks h (vertex_task v) = Some t
           \<and> m_dynamic_state t \<noteq> nullptr \<and> states h (m_dynamic_state t) = Some s"
  then show "release_bypass this delta h =
      Inr (vertex_task v,
           h\<lparr>states := (states h)(m_dynamic_state t \<mapsto> s\<lparr>m_continuation_vertex := nullptr\<rparr>),
             vertices := (vertices h)(this := None)\<rparr>)"
    using vertex
    by (simp add: release_bypass_def deref_Some Let_def get_dynamic_state_existing
        unset_dependency_def)
next
  fix t a rest
  assume zero: "m_ref_count v = ucast delta"
    and "vertex_task v \<noteq> nullptr \<and> tasks h (vertex_task v) = Some t
           \<and> m_dynamic_state t = nullptr \<and> free_list h = a # rest \<and> a \<noteq> nullptr"
  then show "release_bypass this delta h =
      Inr (vertex_task v,
           h\<lparr>free_list := rest,
             states := (states h)(a \<mapsto> task_dynamic_state_ctor (vertex_task v)),
             tasks := (tasks h)(vertex_task v \<mapsto> t\<lparr>m_dynamic_state := a\<rparr>),
             vertices := (vertices h)(this := None)\<rparr>)"
    using vertex
    by (simp add: release_bypass_def deref_Some Let_def get_dynamic_state_fresh
        unset_dependency_def task_dynamic_state_ctor_def)
qed


text \<open>
  A small heap for the examples: task \<open>0x100\<close> (state \<open>0x200\<close>) has one successor
  node \<open>0x400\<close> for the continuation vertex \<open>0x300\<close> of task \<open>0x110\<close> (state
  \<open>0x210\<close>); the vertex counts the node and the reservation of the handle.
\<close>

definition example_heap :: heap where
  "example_heap =
     \<lparr>nodes = [0x400 \<mapsto> \<lparr>m_next_successor = 0, node_continuation_vertex = 0x300\<rparr>],
      vertices = [0x300 \<mapsto> \<lparr>m_ref_count = 2, vertex_task = 0x110\<rparr>],
      states = [0x200 \<mapsto> \<lparr>m_task = 0x100, m_successor_list_head = 0x400,
                           m_continuation_vertex = 0, m_new_dynamic_state = 0,
                           m_num_references = 1\<rparr>,
                0x210 \<mapsto> \<lparr>m_task = 0x110, m_successor_list_head = 0,
                           m_continuation_vertex = 0x300, m_new_dynamic_state = 0,
                           m_num_references = 1\<rparr>],
      tasks = [0x100 \<mapsto> \<lparr>m_dynamic_state = 0x200\<rparr>, 0x110 \<mapsto> \<lparr>m_dynamic_state = 0x210\<rparr>],
      completion_handles = Map.empty,
      free_list = [0x500, 0x508, 0x510],
      spawned = [],
      TBB_USE_ASSERT = True\<rparr>"

theorem release_bypass_subtracts_and_releases_witness:
  "release_bypass 0x300 1 example_heap =
     Inr (nullptr,
          example_heap\<lparr>vertices := (vertices example_heap)
             (0x300 \<mapsto> \<lparr>m_ref_count = 1, vertex_task = 0x110\<rparr>)\<rparr>)
   \<and> release_bypass 0x300 2 example_heap =
     Inr (0x110,
          example_heap\<lparr>states := (states example_heap)
             (0x210 \<mapsto> \<lparr>m_task = 0x110, m_successor_list_head = 0,
                         m_continuation_vertex = nullptr, m_new_dynamic_state = 0,
                         m_num_references = 1\<rparr>),
            vertices := (vertices example_heap)(0x300 := None)\<rparr>)"
  using release_bypass_subtracts_and_releases
          [of "0x300" example_heap "\<lparr>m_ref_count = 2, vertex_task = 0x110\<rparr>" 1]
        release_bypass_subtracts_and_releases
          [of "0x300" example_heap "\<lparr>m_ref_count = 2, vertex_task = 0x110\<rparr>" 2]
  by (simp add: example_heap_def nullptr_def)


lemma deref_nonnull:
  "p \<noteq> nullptr \<Longrightarrow>
   deref store p = (case store p of None \<Rightarrow> Inl (Invalid_access p) | Some obj \<Rightarrow> Inr obj)"
  by (simp add: deref_def)

section \<open>task\_dynamic\_state::release\<close>

function release :: "ptr \<Rightarrow> heap \<Rightarrow> error + heap" where
  "release this h =
     (case deref (states h) this of Inl e \<Rightarrow> Inl e
      | Inr s \<Rightarrow>
          let h1 = h\<lparr>states := (states h)(this \<mapsto> s\<lparr>m_num_references := m_num_references s - 1\<rparr>)\<rparr> in
          if m_num_references s - 1 = 0 then
            let new_state = m_new_dynamic_state s in
            (case (if new_state \<noteq> nullptr then release new_state h1 else Inr h1) of
               Inl e \<Rightarrow> Inl e
             | Inr h2 \<Rightarrow>
                 (case deref (states h2) this of Inl e \<Rightarrow> Inl e
                  | Inr _ \<Rightarrow> Inr (h2\<lparr>states := (states h2)(this := None)\<rparr>)))
          else Inr h1)"
  by pat_completeness auto

definition last_owners :: "heap \<Rightarrow> ptr set" where
  "last_owners h = {p. \<exists>s. states h p = Some s \<and> m_num_references s = 1}"

lemma last_owners_drop:
  assumes "states h this = Some s" and "m_num_references s = 1"
  shows "last_owners (h\<lparr>states := (states h)(this \<mapsto> s\<lparr>m_num_references := 0\<rparr>)\<rparr>)
           = last_owners h - {this}"
  using assms by (auto simp: last_owners_def)

termination release
proof (relation "measure (\<lambda>(this, h). card (last_owners h))", goal_cases)
  case 1
  show ?case by simp
next
  case (2 this h s h1 new_state)
  then have s: "states h this = Some s" and one: "m_num_references s = 1"
    by (auto simp: deref_Inr)
  have "this \<in> last_owners h"
    using s one by (auto simp: last_owners_def)
  moreover have "finite (last_owners h)"
    by simp
  ultimately have "card (last_owners h - {this}) < card (last_owners h)"
    by (rule card_Diff1_less [rotated])
  then show ?case
    using 2 s one last_owners_drop [OF s one] by simp
qed

declare release.simps [simp del]


lemma release_not_last:
  assumes "this \<noteq> nullptr" and "states h this = Some s" and "m_num_references s \<noteq> 1"
  shows "release this h =
           Inr (h\<lparr>states := (states h)(this \<mapsto> s\<lparr>m_num_references := m_num_references s - 1\<rparr>)\<rparr>)"
  using assms by (simp add: release.simps [of this h] deref_Some Let_def)

lemma release_last_unfold:
  assumes "this \<noteq> nullptr" and "states h this = Some s" and "m_num_references s = 1"
  shows "release this h =
           (case (if m_new_dynamic_state s \<noteq> nullptr
                  then release (m_new_dynamic_state s)
                         (h\<lparr>states := (states h)(this \<mapsto> s\<lparr>m_num_references := 0\<rparr>)\<rparr>)
                  else Inr (h\<lparr>states := (states h)(this \<mapsto> s\<lparr>m_num_references := 0\<rparr>)\<rparr>)) of
              Inl e \<Rightarrow> Inl e
            | Inr h2 \<Rightarrow>
                (case deref (states h2) this of Inl e \<Rightarrow> Inl e
                 | Inr _ \<Rightarrow> Inr (h2\<lparr>states := (states h2)(this := None)\<rparr>)))"
  using assms by (simp add: release.simps [of this h] deref_Some Let_def)

text \<open>
  C8. When the release of a dynamic state \<open>S\<close> takes its count from 1 to zero:
  with no forwarding state, \<open>S\<close> is freed and nothing else changes; with a
  forwarding state \<open>S'\<close>, \<open>release\<close> runs once on \<open>S'\<close> and then \<open>S\<close> is freed.
  For \<open>S'\<close> distinct from \<open>S\<close> this takes exactly one from the count of \<open>S'\<close>
  when other owners remain, and frees \<open>S'\<close> as well when \<open>S\<close> was its last owner
  (and \<open>S'\<close> forwards to nothing).
\<close>

theorem release_last_reference:
  assumes "this \<noteq> nullptr" and "states h this = Some s" and "m_num_references s = 1"
  shows "(m_new_dynamic_state s = nullptr \<longrightarrow>
            release this h = Inr (h\<lparr>states := (states h)(this := None)\<rparr>))
       \<and> (m_new_dynamic_state s \<noteq> nullptr \<longrightarrow>
            release this h =
              (case release (m_new_dynamic_state s)
                      (h\<lparr>states := (states h)(this \<mapsto> s\<lparr>m_num_references := 0\<rparr>)\<rparr>) of
                 Inl e \<Rightarrow> Inl e
               | Inr h2 \<Rightarrow>
                   (case deref (states h2) this of Inl e \<Rightarrow> Inl e
                    | Inr _ \<Rightarrow> Inr (h2\<lparr>states := (states h2)(this := None)\<rparr>))))
       \<and> (\<forall>s'. m_new_dynamic_state s \<noteq> nullptr \<and> m_new_dynamic_state s \<noteq> this
               \<and> states h (m_new_dynamic_state s) = Some s' \<and> m_num_references s' \<noteq> 1 \<longrightarrow>
            release this h =
              Inr (h\<lparr>states := (states h)
                     (m_new_dynamic_state s \<mapsto> s'\<lparr>m_num_references := m_num_references s' - 1\<rparr>,
                      this := None)\<rparr>))
       \<and> (\<forall>s'. m_new_dynamic_state s \<noteq> nullptr \<and> m_new_dynamic_state s \<noteq> this
               \<and> states h (m_new_dynamic_state s) = Some s' \<and> m_num_references s' = 1
               \<and> m_new_dynamic_state s' = nullptr \<longrightarrow>
            release this h =
              Inr (h\<lparr>states := (states h)(m_new_dynamic_state s := None, this := None)\<rparr>))"
proof (intro conjI impI allI)
  assume "m_new_dynamic_state s = nullptr"
  then show "release this h = Inr (h\<lparr>states := (states h)(this := None)\<rparr>)"
    using assms by (simp add: release_last_unfold deref_Some)
next
  assume "m_new_dynamic_state s \<noteq> nullptr"
  then show "release this h =
      (case release (m_new_dynamic_state s)
              (h\<lparr>states := (states h)(this \<mapsto> s\<lparr>m_num_references := 0\<rparr>)\<rparr>) of
         Inl e \<Rightarrow> Inl e
       | Inr h2 \<Rightarrow>
           (case deref (states h2) this of Inl e \<Rightarrow> Inl e
            | Inr _ \<Rightarrow> Inr (h2\<lparr>states := (states h2)(this := None)\<rparr>)))"
    using assms by (simp add: release_last_unfold)
next
  fix s'
  assume a: "m_new_dynamic_state s \<noteq> nullptr \<and> m_new_dynamic_state s \<noteq> this
               \<and> states h (m_new_dynamic_state s) = Some s' \<and> m_num_references s' \<noteq> 1"
  let ?S' = "m_new_dynamic_state s"
  let ?h1 = "h\<lparr>states := (states h)(this \<mapsto> s\<lparr>m_num_references := 0\<rparr>)\<rparr>"
  have "release ?S' ?h1 =
          Inr (?h1\<lparr>states := (states ?h1)(?S' \<mapsto> s'\<lparr>m_num_references := m_num_references s' - 1\<rparr>)\<rparr>)"
    using a by (intro release_not_last) simp_all
  moreover have "(states h)(this \<mapsto> s\<lparr>m_num_references := 0\<rparr>,
                    ?S' \<mapsto> s'\<lparr>m_num_references := m_num_references s' - 1\<rparr>, this := None)
               = (states h)(?S' \<mapsto> s'\<lparr>m_num_references := m_num_references s' - 1\<rparr>, this := None)"
    by (rule ext) simp
  ultimately show "release this h =
      Inr (h\<lparr>states := (states h)
             (?S' \<mapsto> s'\<lparr>m_num_references := m_num_references s' - 1\<rparr>, this := None)\<rparr>)"
    using assms a by (simp add: release_last_unfold deref_nonnull)
next
  fix s'
  assume a: "m_new_dynamic_state s \<noteq> nullptr \<and> m_new_dynamic_state s \<noteq> this
               \<and> states h (m_new_dynamic_state s) = Some s' \<and> m_num_references s' = 1
               \<and> m_new_dynamic_state s' = nullptr"
  let ?S' = "m_new_dynamic_state s"
  let ?h1 = "h\<lparr>states := (states h)(this \<mapsto> s\<lparr>m_num_references := 0\<rparr>)\<rparr>"
  have "release ?S' ?h1 = Inr (?h1\<lparr>states := (states ?h1)(?S' := None)\<rparr>)"
    using a by (subst release_last_unfold [where s = s']) (auto simp: deref_nonnull)
  moreover have "(states h)(this \<mapsto> s\<lparr>m_num_references := 0\<rparr>, ?S' := None, this := None)
               = (states h)(?S' := None, this := None)"
    by (rule ext) simp
  moreover have "this \<noteq> ?S'"
    using a by auto
  ultimately show "release this h =
      Inr (h\<lparr>states := (states h)(?S' := None, this := None)\<rparr>)"
    using assms a by (simp add: release_last_unfold deref_nonnull)
qed


text \<open>The example heap after task \<open>0x100\<close> has handed its successors over to the
  state \<open>0x210\<close>: the state \<open>0x200\<close> is sealed and forwards to \<open>0x210\<close>, which holds
  the node and counts the reservation of \<open>0x200\<close>.\<close>

definition example_transferred :: heap where
  "example_transferred =
     example_heap\<lparr>states :=
       [0x200 \<mapsto> \<lparr>m_task = 0x100, m_successor_list_head = COMPLETED_FLAG,
                   m_continuation_vertex = 0, m_new_dynamic_state = 0x210,
                   m_num_references = 1\<rparr>,
        0x210 \<mapsto> \<lparr>m_task = 0x110, m_successor_list_head = 0x400,
                   m_continuation_vertex = 0x300, m_new_dynamic_state = 0,
                   m_num_references = 2\<rparr>]\<rparr>"

theorem release_last_reference_witness:
  "release 0x200 example_transferred =
     Inr (example_transferred\<lparr>states := (states example_transferred)
            (0x210 \<mapsto> \<lparr>m_task = 0x110, m_successor_list_head = 0x400,
                        m_continuation_vertex = 0x300, m_new_dynamic_state = 0,
                        m_num_references = 1\<rparr>,
             0x200 := None)\<rparr>)"
proof -
  let ?s = "\<lparr>m_task = 0x100, m_successor_list_head = COMPLETED_FLAG,
             m_continuation_vertex = 0, m_new_dynamic_state = 0x210,
             m_num_references = 1\<rparr>"
  let ?s' = "\<lparr>m_task = 0x110, m_successor_list_head = 0x400,
              m_continuation_vertex = 0x300, m_new_dynamic_state = 0,
              m_num_references = 2\<rparr>"
  have "0x200 \<noteq> nullptr" "states example_transferred 0x200 = Some ?s" "m_num_references ?s = 1"
    by (simp_all add: example_transferred_def nullptr_def)
  from release_last_reference [OF this, THEN conjunct2, THEN conjunct2, THEN conjunct1,
      THEN spec, where x = ?s']
  show ?thesis
    by (simp add: example_transferred_def nullptr_def)
qed


section \<open>release\_successor\_list and complete\_task\<close>

lemma get_dynamic_state_nodes:
  "get_dynamic_state t h = Inr (st, h') \<Longrightarrow> nodes h' = nodes h"
  by (auto simp: get_dynamic_state_def new_object_def cas_dynamic_state_def Let_def
      split: sum.splits if_splits list.splits prod.splits bool.splits)

lemma release_bypass_nodes:
  "release_bypass v delta h = Inr (t, h') \<Longrightarrow> nodes h' = nodes h"
  by (auto simp: release_bypass_def unset_dependency_def Let_def
      dest!: get_dynamic_state_nodes split: sum.splits if_splits prod.splits)

text \<open>The loop of \<^verbatim>\<open>release_successor_list\<close>, with its two variables \<open>node\<close> and
  \<open>next_task\<close>. \<^verbatim>\<open>d1::spawn(*successor_task, successor_task->ctx())\<close> reads the
  task for its context before the call.\<close>

function release_successor_list_loop :: "ptr \<Rightarrow> ptr \<Rightarrow> heap \<Rightarrow> error + (ptr \<times> heap)" where
  "release_successor_list_loop node next_task h =
     (if node \<noteq> nullptr then
        (case get_next_node node h of Inl e \<Rightarrow> Inl e
         | Inr next_node \<Rightarrow>
             (case node_get_continuation_vertex node h of Inl e \<Rightarrow> Inl e
              | Inr v \<Rightarrow>
                  (case release_bypass v 1 h of Inl e \<Rightarrow> Inl e
                   | Inr (successor_task, h1) \<Rightarrow>
                       (case node_finalize node h1 of Inl e \<Rightarrow> Inl e
                        | Inr h2 \<Rightarrow>
                            if successor_task \<noteq> nullptr then
                              if next_task = nullptr then
                                release_successor_list_loop next_node successor_task h2
                              else
                                (case deref (tasks h2) successor_task of Inl e \<Rightarrow> Inl e
                                 | Inr _ \<Rightarrow>
                                     release_successor_list_loop next_node next_task
                                       (spawn successor_task h2))
                            else release_successor_list_loop next_node next_task h2))))
      else Inr (next_task, h))"
  by pat_completeness auto

lemma node_finalize_card:
  assumes "node_finalize node h1 = Inr h2" and "nodes h1 = nodes h"
  shows "card (dom (nodes h2)) < card (dom (nodes h))"
proof -
  from assms obtain n where n: "nodes h node = Some n" and h2: "nodes h2 = (nodes h)(node := None)"
    by (auto simp: node_finalize_def deref_Inr split: sum.splits)
  have "node \<in> dom (nodes h)"
    using n by auto
  moreover have "finite (dom (nodes h))"
    by simp
  ultimately have "card (dom (nodes h) - {node}) < card (dom (nodes h))"
    by (rule card_Diff1_less [rotated])
  then show ?thesis
    by (simp add: h2)
qed

termination release_successor_list_loop
proof (relation "measure (\<lambda>(node, next_task, h). card (dom (nodes h)))", goal_cases)
  case 1
  show ?case by simp
next
  case (2 node next_task h next_node v x successor_task h1 h2)
  then show ?case
    using node_finalize_card [of node h1 h2 h] release_bypass_nodes [of v 1 h successor_task h1]
    by simp
next
  case (3 node next_task h next_node v x successor_task h1 h2 t)
  then show ?case
    using node_finalize_card [of node h1 h2 h] release_bypass_nodes [of v 1 h successor_task h1]
    by (simp add: spawn_def)
next
  case (4 node next_task h next_node v x successor_task h1 h2)
  then show ?case
    using node_finalize_card [of node h1 h2 h] release_bypass_nodes [of v 1 h successor_task h1]
    by simp
qed

declare release_successor_list_loop.simps [simp del]

definition release_successor_list :: "ptr \<Rightarrow> heap \<Rightarrow> error + (ptr \<times> heap)" where
  "release_successor_list node h = release_successor_list_loop node nullptr h"

definition complete_task :: "ptr \<Rightarrow> heap \<Rightarrow> error + (ptr \<times> heap)" where
  "complete_task this h =
     (case fetch_successor_list this COMPLETED_FLAG h of Inl e \<Rightarrow> Inl e
      | Inr (list, h1) \<Rightarrow> release_successor_list list h1)"

text \<open>\<^verbatim>\<open>task_handle_task::complete_task\<close>\<close>

definition task_complete_task :: "ptr \<Rightarrow> heap \<Rightarrow> error + (ptr \<times> heap)" where
  "task_complete_task this h =
     (case deref (tasks h) this of Inl e \<Rightarrow> Inl e
      | Inr t \<Rightarrow>
          let current_state = m_dynamic_state t in
          if current_state \<noteq> nullptr then complete_task current_state h
          else Inr (nullptr, h))"


subsection \<open>The successor list as a list of node addresses\<close>

text \<open>\<open>is_list ns p xs\<close>: following \<open>m_next_successor\<close> from \<open>p\<close> in the node store \<open>ns\<close>
  visits exactly the nodes \<open>xs\<close>, head first, and ends at the null pointer.\<close>

fun is_list :: "(ptr \<rightharpoonup> successor_list_node) \<Rightarrow> ptr \<Rightarrow> ptr list \<Rightarrow> bool" where
  "is_list ns p [] \<longleftrightarrow> p = nullptr"
| "is_list ns p (x # xs) \<longleftrightarrow>
     p = x \<and> x \<noteq> nullptr \<and>
     (case ns x of None \<Rightarrow> False | Some n \<Rightarrow> is_list ns (m_next_successor n) xs)"

text \<open>
  The drain of the claim, in the words of the spec: for each node in list order,
  \<open>release_bypass\<close> on the node's vertex and the node finalized; the tasks returned
  are collected in order. \<open>bypass_task\<close> picks the first task that is not null, the
  others that are not null are the ones spawned.
\<close>

fun release_each :: "ptr list \<Rightarrow> heap \<Rightarrow> error + (ptr list \<times> heap)" where
  "release_each [] h = Inr ([], h)"
| "release_each (x # xs) h =
     (case deref (nodes h) x of Inl e \<Rightarrow> Inl e
      | Inr n \<Rightarrow>
          (case release_bypass (node_continuation_vertex n) 1 h of Inl e \<Rightarrow> Inl e
           | Inr (t, h1) \<Rightarrow>
               (case release_each xs (h1\<lparr>nodes := (nodes h1)(x := None)\<rparr>) of Inl e \<Rightarrow> Inl e
                | Inr (ts, h2) \<Rightarrow> Inr (t # ts, h2))))"

definition returned_tasks :: "ptr list \<Rightarrow> ptr list" where
  "returned_tasks ts = filter (\<lambda>t. t \<noteq> nullptr) ts"

definition bypass_task :: "ptr list \<Rightarrow> ptr" where
  "bypass_task ts = (case returned_tasks ts of [] \<Rightarrow> nullptr | t # _ \<Rightarrow> t)"

lemma is_list_Cons:
  "is_list ns p (x # xs) \<longleftrightarrow>
     p = x \<and> x \<noteq> nullptr \<and> (\<exists>n. ns x = Some n \<and> is_list ns (m_next_successor n) xs)"
  by (auto split: option.splits)

lemma is_list_unique: "is_list ns p xs \<Longrightarrow> is_list ns p ys \<Longrightarrow> xs = ys"
proof (induction xs arbitrary: p ys)
  case Nil
  then show ?case by (cases ys) auto
next
  case (Cons x xs)
  show ?case
  proof (cases ys)
    case Nil
    with Cons.prems show ?thesis by simp
  next
    case (Cons y ys')
    with Cons.prems Cons.IH show ?thesis
      unfolding is_list_Cons by fastforce
  qed
qed

lemma is_list_suffix: "is_list ns p (xs @ y # ys) \<Longrightarrow> is_list ns y (y # ys)"
proof (induction xs arbitrary: p)
  case Nil
  then show ?case by simp
next
  case (Cons x xs)
  then show ?case
    unfolding append_Cons is_list_Cons [of ns p x] by blast
qed

lemma is_list_head_notin_tail:
  assumes "is_list ns p (x # xs)"
  shows "x \<notin> set xs"
proof
  assume "x \<in> set xs"
  then obtain as bs where xs: "xs = as @ x # bs"
    by (auto simp: in_set_conv_decomp)
  from assms have px: "p = x"
    by simp
  from assms have "is_list ns p ((x # as) @ x # bs)"
    by (simp add: xs)
  then have "is_list ns x (x # bs)"
    by (rule is_list_suffix)
  with assms px have "x # bs = x # xs"
    using is_list_unique by blast
  then show False
    by (simp add: xs)
qed

lemma is_list_distinct: "is_list ns p xs \<Longrightarrow> distinct xs"
proof (induction xs arbitrary: p)
  case Nil
  then show ?case by simp
next
  case (Cons x xs)
  from Cons.prems have "x \<notin> set xs"
    by (rule is_list_head_notin_tail)
  moreover from Cons.prems Cons.IH have "distinct xs"
    unfolding is_list_Cons by blast
  ultimately show ?case by simp
qed

lemma is_list_frame:
  "is_list ns p xs \<Longrightarrow> (\<forall>x \<in> set xs. ns' x = ns x) \<Longrightarrow> is_list ns' p xs"
proof (induction xs arbitrary: p)
  case Nil
  then show ?case by simp
next
  case (Cons x xs)
  then show ?case
    unfolding is_list_Cons by (metis list.set_intros(1) list.set_intros(2))
qed

lemma is_list_nonnull: "is_list ns p xs \<Longrightarrow> nullptr \<notin> set xs"
proof (induction xs arbitrary: p)
  case Nil
  then show ?case by simp
next
  case (Cons x xs)
  then show ?case
    unfolding is_list_Cons by auto
qed


subsection \<open>The loop computes the drain\<close>

lemma get_dynamic_state_eq:
  "get_dynamic_state t h =
     (if t = nullptr then Inl Null_dereference
      else case tasks h t of
        None \<Rightarrow> Inl (Invalid_access t)
      | Some tk \<Rightarrow>
          if m_dynamic_state tk \<noteq> nullptr then Inr (m_dynamic_state tk, h)
          else (case free_list h of
                  [] \<Rightarrow> Inl Bad_alloc
                | a # rest \<Rightarrow>
                    if TBB_USE_ASSERT h \<and> a = nullptr
                    then Inl (Assertion_failed ''Failed to create dynamic state'')
                    else Inr (a, h\<lparr>free_list := rest,
                                   states := (states h)(a \<mapsto> task_dynamic_state_ctor t),
                                   tasks := (tasks h)(t \<mapsto> tk\<lparr>m_dynamic_state := a\<rparr>)\<rparr>)))"
  by (simp add: get_dynamic_state_def deref_def new_object_def cas_dynamic_state_def Let_def
      TBB_ASSERT_def split: option.splits list.splits)

lemma get_dynamic_state_spawned_update:
  "get_dynamic_state t (h\<lparr>spawned := x\<rparr>) =
     (case get_dynamic_state t h of Inl e \<Rightarrow> Inl e | Inr (st, h') \<Rightarrow> Inr (st, h'\<lparr>spawned := x\<rparr>))"
  by (simp add: get_dynamic_state_eq split: option.splits list.splits)

lemma release_bypass_spawned_update:
  "release_bypass v delta (h\<lparr>spawned := x\<rparr>) =
     (case release_bypass v delta h of Inl e \<Rightarrow> Inl e | Inr (t, h') \<Rightarrow> Inr (t, h'\<lparr>spawned := x\<rparr>))"
proof -
  have upd: "\<And>f. (h\<lparr>spawned := x\<rparr>)\<lparr>vertices := f\<rparr> = (h\<lparr>vertices := f\<rparr>)\<lparr>spawned := x\<rparr>"
    by simp
  show ?thesis
    unfolding release_bypass_def
    by (simp add: Let_def upd get_dynamic_state_spawned_update unset_dependency_def
        del: heap.update_convs split: sum.splits prod.splits)
qed

lemma release_each_spawned_update:
  "release_each xs (h\<lparr>spawned := x\<rparr>) =
     (case release_each xs h of Inl e \<Rightarrow> Inl e | Inr (ts, h') \<Rightarrow> Inr (ts, h'\<lparr>spawned := x\<rparr>))"
proof (induction xs arbitrary: h)
  case Nil
  show ?case by simp
next
  case (Cons a xs)
  have upd: "\<And>g f. (g\<lparr>spawned := x\<rparr>)\<lparr>nodes := f\<rparr> = (g\<lparr>nodes := f\<rparr>)\<lparr>spawned := x\<rparr>"
    by simp
  show ?case
    by (simp add: release_bypass_spawned_update upd Cons.IH del: heap.update_convs
        split: sum.splits prod.splits)
qed

lemma get_dynamic_state_spawned:
  "get_dynamic_state t h = Inr (st, h') \<Longrightarrow> spawned h' = spawned h"
  by (auto simp: get_dynamic_state_def new_object_def cas_dynamic_state_def Let_def
      split: sum.splits if_splits list.splits prod.splits bool.splits)

lemma release_bypass_spawned:
  "release_bypass v delta h = Inr (t, h') \<Longrightarrow> spawned h' = spawned h"
  by (auto simp: release_bypass_def unset_dependency_def Let_def
      dest!: get_dynamic_state_spawned split: sum.splits if_splits prod.splits)

lemma get_dynamic_state_task_alive:
  "get_dynamic_state t h = Inr (st, h') \<Longrightarrow> t \<noteq> nullptr \<and> (\<exists>tk. tasks h' t = Some tk)"
  by (auto simp: get_dynamic_state_def new_object_def cas_dynamic_state_def Let_def deref_Inr
      split: sum.splits if_splits list.splits prod.splits bool.splits)

lemma release_bypass_task_alive:
  "release_bypass v delta h = Inr (t, h') \<Longrightarrow> t \<noteq> nullptr \<Longrightarrow> \<exists>tk. tasks h' t = Some tk"
  by (auto simp: release_bypass_def unset_dependency_def Let_def nullptr_def
      dest!: get_dynamic_state_task_alive split: sum.splits if_splits prod.splits)

lemma release_successor_list_loop_drain:
  "is_list (nodes h) p xs \<Longrightarrow>
   release_successor_list_loop p next_task h =
     (case release_each xs h of Inl e \<Rightarrow> Inl e
      | Inr (ts, h') \<Rightarrow>
          Inr (if next_task \<noteq> nullptr then next_task else bypass_task ts,
               h'\<lparr>spawned := spawned h @
                    (if next_task \<noteq> nullptr then returned_tasks ts else tl (returned_tasks ts))\<rparr>))"
proof (induction xs arbitrary: p next_task h)
  case Nil
  then show ?case
    by (simp add: release_successor_list_loop.simps [of nullptr] bypass_task_def returned_tasks_def)
next
  case (Cons x xs)
  from Cons.prems obtain n where p: "p = x" and x: "x \<noteq> nullptr" and n: "nodes h x = Some n"
    and rest: "is_list (nodes h) (m_next_successor n) xs"
    unfolding is_list_Cons by blast
  have notin: "x \<notin> set xs"
    using Cons.prems by (rule is_list_head_notin_tail)
  show ?case
  proof (cases "release_bypass (node_continuation_vertex n) 1 h")
    case (Inl e)
    then show ?thesis
      using p x n
      by (simp add: release_successor_list_loop.simps [of x] get_next_node_def
          node_get_continuation_vertex_def deref_nonnull)
  next
    case (Inr r)
    obtain t h1 where r: "r = (t, h1)"
      by (cases r)
    have rb: "release_bypass (node_continuation_vertex n) 1 h = Inr (t, h1)"
      using Inr r by simp
    have nodes1: "nodes h1 = nodes h"
      using rb by (rule release_bypass_nodes)
    have spawned1: "spawned h1 = spawned h"
      using rb by (rule release_bypass_spawned)
    let ?h2 = "h1\<lparr>nodes := (nodes h1)(x := None)\<rparr>"
    have fin: "node_finalize x h1 = Inr ?h2"
      using x n nodes1 by (simp add: node_finalize_def deref_nonnull)
    have rest2: "is_list (nodes ?h2) (m_next_successor n) xs"
      using rest notin nodes1 by (auto intro: is_list_frame)
    have unfold: "release_successor_list_loop p next_task h =
        (if t \<noteq> nullptr then
           if next_task = nullptr then release_successor_list_loop (m_next_successor n) t ?h2
           else (case deref (tasks ?h2) t of Inl e \<Rightarrow> Inl e
                 | Inr _ \<Rightarrow> release_successor_list_loop (m_next_successor n) next_task (spawn t ?h2))
         else release_successor_list_loop (m_next_successor n) next_task ?h2)"
      using p x n rb fin
      by (simp add: release_successor_list_loop.simps [of x] get_next_node_def
          node_get_continuation_vertex_def deref_nonnull)
    show ?thesis
    proof (cases "t = nullptr")
      case True
      then show ?thesis
        using unfold Cons.IH [OF rest2] x n rb spawned1
        by (auto simp: deref_nonnull bypass_task_def returned_tasks_def
            split: sum.splits prod.splits)
    next
      case False
      then obtain tk where "tasks h1 t = Some tk"
        using release_bypass_task_alive [OF rb] by blast
      then have alive: "deref (tasks ?h2) t = Inr tk"
        using False by (simp add: deref_nonnull)
      show ?thesis
      proof (cases "next_task = nullptr")
        case True
        then show ?thesis
          using unfold Cons.IH [OF rest2] x n rb spawned1 False
          by (auto simp: deref_nonnull bypass_task_def returned_tasks_def
              split: sum.splits prod.splits)
      next
        case nt: False
        have spawn_eq: "spawn t ?h2 = ?h2\<lparr>spawned := spawned h @ [t]\<rparr>"
          by (simp add: spawn_def spawned1)
        have rest3: "is_list (nodes (spawn t ?h2)) (m_next_successor n) xs"
          using rest2 by (simp add: spawn_def)
        show ?thesis
          using unfold Cons.IH [OF rest3] x n rb False nt alive
          by (auto simp: spawn_eq release_each_spawned_update deref_nonnull returned_tasks_def
              split: sum.splits prod.splits)
      qed
    qed
  qed
qed


text \<open>
  C2. For a dynamic state whose successor list holds the nodes \<open>xs\<close> (head first),
  \<open>complete_task\<close> exchanges the head with \<open>COMPLETED_FLAG\<close> and then, in list order,
  calls \<open>release_bypass\<close> on the vertex of each node and finalizes the node. The first
  task returned that is not null is the result, the later ones are spawned in order.
  With an empty list the result is null and nothing is spawned; a task without a
  dynamic state completes with null and an unchanged heap.
\<close>

theorem complete_task_drains_in_order:
  assumes "this \<noteq> nullptr" and "states h this = Some s"
    and "is_list (nodes h) (m_successor_list_head s) xs"
  shows "complete_task this h =
           (case release_each xs
                   (h\<lparr>states := (states h)(this \<mapsto> s\<lparr>m_successor_list_head := COMPLETED_FLAG\<rparr>)\<rparr>) of
              Inl e \<Rightarrow> Inl e
            | Inr (ts, h') \<Rightarrow>
                Inr (bypass_task ts, h'\<lparr>spawned := spawned h @ tl (returned_tasks ts)\<rparr>))
       \<and> (xs = [] \<longrightarrow>
            complete_task this h =
              Inr (nullptr,
                   h\<lparr>states := (states h)(this \<mapsto> s\<lparr>m_successor_list_head := COMPLETED_FLAG\<rparr>)\<rparr>))
       \<and> (\<forall>T t. T \<noteq> nullptr \<and> tasks h T = Some t \<longrightarrow>
            task_complete_task T h =
              (if m_dynamic_state t = nullptr then Inr (nullptr, h)
               else complete_task (m_dynamic_state t) h))"
proof -
  let ?h1 = "h\<lparr>states := (states h)(this \<mapsto> s\<lparr>m_successor_list_head := COMPLETED_FLAG\<rparr>)\<rparr>"
  have fetch: "fetch_successor_list this COMPLETED_FLAG h = Inr (m_successor_list_head s, ?h1)"
    using assms by (simp add: fetch_successor_list_def deref_nonnull)
  have "is_list (nodes ?h1) (m_successor_list_head s) xs"
    using assms by simp
  from release_successor_list_loop_drain [OF this, of nullptr]
  have main: "complete_task this h =
           (case release_each xs ?h1 of
              Inl e \<Rightarrow> Inl e
            | Inr (ts, h') \<Rightarrow>
                Inr (bypass_task ts, h'\<lparr>spawned := spawned h @ tl (returned_tasks ts)\<rparr>))"
    by (simp add: complete_task_def fetch release_successor_list_def split: sum.splits prod.splits)
  have empty: "xs = [] \<longrightarrow> complete_task this h = Inr (nullptr, ?h1)"
  proof
    assume "xs = []"
    moreover have "?h1\<lparr>spawned := spawned h\<rparr> = ?h1"
      by simp
    ultimately show "complete_task this h = Inr (nullptr, ?h1)"
      using main by (simp add: bypass_task_def returned_tasks_def)
  qed
  have task: "\<forall>T t. T \<noteq> nullptr \<and> tasks h T = Some t \<longrightarrow>
            task_complete_task T h =
              (if m_dynamic_state t = nullptr then Inr (nullptr, h)
               else complete_task (m_dynamic_state t) h)"
    by (simp add: task_complete_task_def deref_nonnull)
  from main empty task show ?thesis
    by blast
qed

text \<open>Task \<open>0x100\<close> (state \<open>0x200\<close>) with two successor nodes: \<open>0x400\<close> for the vertex of
  task \<open>0x110\<close> and \<open>0x408\<close> for the vertex of task \<open>0x120\<close>; both successors are
  submitted already, so each vertex counts its node only.\<close>

definition example_fan_out :: heap where
  "example_fan_out =
     \<lparr>nodes = [0x400 \<mapsto> \<lparr>m_next_successor = 0x408, node_continuation_vertex = 0x300\<rparr>,
               0x408 \<mapsto> \<lparr>m_next_successor = 0, node_continuation_vertex = 0x308\<rparr>],
      vertices = [0x300 \<mapsto> \<lparr>m_ref_count = 1, vertex_task = 0x110\<rparr>,
                  0x308 \<mapsto> \<lparr>m_ref_count = 1, vertex_task = 0x120\<rparr>],
      states = [0x200 \<mapsto> \<lparr>m_task = 0x100, m_successor_list_head = 0x400,
                           m_continuation_vertex = 0, m_new_dynamic_state = 0,
                           m_num_references = 1\<rparr>,
                0x210 \<mapsto> \<lparr>m_task = 0x110, m_successor_list_head = 0,
                           m_continuation_vertex = 0x300, m_new_dynamic_state = 0,
                           m_num_references = 1\<rparr>,
                0x220 \<mapsto> \<lparr>m_task = 0x120, m_successor_list_head = 0,
                           m_continuation_vertex = 0x308, m_new_dynamic_state = 0,
                           m_num_references = 1\<rparr>],
      tasks = [0x100 \<mapsto> \<lparr>m_dynamic_state = 0x200\<rparr>, 0x110 \<mapsto> \<lparr>m_dynamic_state = 0x210\<rparr>,
               0x120 \<mapsto> \<lparr>m_dynamic_state = 0x220\<rparr>],
      completion_handles = Map.empty,
      free_list = [0x500, 0x508, 0x510],
      spawned = [],
      TBB_USE_ASSERT = True\<rparr>"

theorem complete_task_drains_in_order_witness:
  "(case complete_task 0x200 example_fan_out of
      Inl e \<Rightarrow> None
    | Inr (t, h') \<Rightarrow> Some (t, spawned h', nodes h' 0x400, nodes h' 0x408,
                           vertices h' 0x300, vertices h' 0x308))
   = Some (0x110, [0x120], None, None, None, None)"
proof -
  let ?s = "\<lparr>m_task = 0x100, m_successor_list_head = 0x400,
             m_continuation_vertex = 0, m_new_dynamic_state = 0,
             m_num_references = 1\<rparr>"
  have "0x200 \<noteq> nullptr" "states example_fan_out 0x200 = Some ?s"
    "is_list (nodes example_fan_out) (m_successor_list_head ?s) [0x400, 0x408]"
    by (simp_all add: example_fan_out_def nullptr_def)
  from complete_task_drains_in_order [OF this, THEN conjunct1]
  show ?thesis
    by (simp add: example_fan_out_def nullptr_def deref_def release_bypass_def
        get_dynamic_state_eq unset_dependency_def Let_def bypass_task_def returned_tasks_def)
qed


section \<open>Submission: release\_continuation and task\_handle\_accessor::release\<close>

definition release_continuation :: "ptr \<Rightarrow> heap \<Rightarrow> error + heap" where
  "release_continuation this h =
     (case deref (states h) this of Inl e \<Rightarrow> Inl e
      | Inr s \<Rightarrow>
          let current_vertex = m_continuation_vertex s in
          (case TBB_ASSERT (current_vertex \<noteq> nullptr)
                  ''release_continuation requested for task without dependencies'' h of
             Inl e \<Rightarrow> Inl e
           | Inr _ \<Rightarrow>
               (case release_bypass current_vertex 1 h of Inl e \<Rightarrow> Inl e
                | Inr (task, h1) \<Rightarrow>
                    if task \<noteq> nullptr then
                      (case deref (tasks h1) task of Inl e \<Rightarrow> Inl e
                       | Inr _ \<Rightarrow> Inr (spawn task h1))
                    else Inr h1)))"

text \<open>\<^verbatim>\<open>task_handle_task::release_continuation\<close> and
  \<^verbatim>\<open>task_handle_task::has_dependencies\<close>\<close>

definition task_release_continuation :: "ptr \<Rightarrow> heap \<Rightarrow> error + heap" where
  "task_release_continuation this h =
     (case deref (tasks h) this of Inl e \<Rightarrow> Inl e
      | Inr t \<Rightarrow>
          let current_state = m_dynamic_state t in
          if current_state \<noteq> nullptr then
            (case has_dependencies current_state h of Inl e \<Rightarrow> Inl e
             | Inr pending \<Rightarrow> if pending then release_continuation current_state h else Inr h)
          else Inr h)"

definition task_has_dependencies :: "ptr \<Rightarrow> heap \<Rightarrow> error + bool" where
  "task_has_dependencies this h =
     (case deref (tasks h) this of Inl e \<Rightarrow> Inl e
      | Inr t \<Rightarrow>
          let current_state = m_dynamic_state t in
          if current_state \<noteq> nullptr then has_dependencies current_state h else Inr False)"

text \<open>\<^verbatim>\<open>class task_handle\<close>: a \<^verbatim>\<open>std::unique_ptr\<close> to the task, a value owned by the
  caller. \<open>task_handle_release\<close> is the private \<^verbatim>\<open>task_handle::release()\<close>: the pointer
  and the handle left empty.\<close>

record task_handle =
  m_handle :: ptr

definition task_handle_bool :: "task_handle \<Rightarrow> bool" where
  "task_handle_bool th \<longleftrightarrow> m_handle th \<noteq> nullptr"

definition task_handle_release :: "task_handle \<Rightarrow> ptr \<times> task_handle" where
  "task_handle_release th = (m_handle th, th\<lparr>m_handle := nullptr\<rparr>)"

text \<open>\<^verbatim>\<open>task_handle_accessor::release\<close>\<close>

definition task_handle_accessor_release ::
    "task_handle \<Rightarrow> heap \<Rightarrow> error + ((ptr \<times> task_handle) \<times> heap)" where
  "task_handle_accessor_release th h =
     (case task_release_continuation (m_handle th) h of Inl e \<Rightarrow> Inl e
      | Inr h1 \<Rightarrow> Inr (task_handle_release th, h1))"

lemma release_continuation_eq:
  assumes "this \<noteq> nullptr" and "states h this = Some s" and "m_continuation_vertex s \<noteq> nullptr"
  shows "release_continuation this h =
           (case release_bypass (m_continuation_vertex s) 1 h of Inl e \<Rightarrow> Inl e
            | Inr (task, h1) \<Rightarrow> Inr (if task \<noteq> nullptr then spawn task h1 else h1))"
proof (cases "release_bypass (m_continuation_vertex s) 1 h")
  case (Inl e)
  then show ?thesis
    using assms by (simp add: release_continuation_def deref_nonnull TBB_ASSERT_def)
next
  case (Inr r)
  obtain task h1 where r: "r = (task, h1)"
    by (cases r)
  have rb: "release_bypass (m_continuation_vertex s) 1 h = Inr (task, h1)"
    using Inr r by simp
  have "task \<noteq> nullptr \<Longrightarrow> \<exists>tk. deref (tasks h1) task = Inr tk"
    using release_bypass_task_alive [OF rb] by (auto simp: deref_nonnull)
  then show ?thesis
    using assms Inr r by (auto simp: release_continuation_def deref_nonnull TBB_ASSERT_def)
qed

lemma release_bypass_not_last:
  assumes "this \<noteq> nullptr" and "vertices h this = Some v" and "m_ref_count v \<noteq> 1"
  shows "release_bypass this 1 h =
           Inr (nullptr, h\<lparr>vertices := (vertices h)(this \<mapsto> v\<lparr>m_ref_count := m_ref_count v - 1\<rparr>)\<rparr>)"
  using assms by (simp add: release_bypass_def deref_nonnull Let_def)

lemma release_bypass_last:
  assumes "this \<noteq> nullptr" and "vertices h this = Some v" and "m_ref_count v = 1"
    and "vertex_task v \<noteq> nullptr" and "tasks h (vertex_task v) = Some t"
    and "m_dynamic_state t \<noteq> nullptr" and "states h (m_dynamic_state t) = Some s"
  shows "release_bypass this 1 h =
           Inr (vertex_task v,
                h\<lparr>states := (states h)(m_dynamic_state t \<mapsto> s\<lparr>m_continuation_vertex := nullptr\<rparr>),
                  vertices := (vertices h)(this := None)\<rparr>)"
  using assms
  by (simp add: release_bypass_def deref_nonnull Let_def get_dynamic_state_eq unset_dependency_def)

text \<open>
  C6. \<open>task_handle_accessor::release\<close> on a handle that owns task \<open>T\<close> first runs
  \<open>release_continuation\<close> of the task: nothing happens when the task has no dynamic
  state or the state has no continuation vertex; otherwise the state's
  \<open>release_continuation\<close> runs, which is \<open>release_bypass\<close> on the vertex followed by a
  spawn of the task it returns, if any. When the count was 1 (all predecessors have
  completed) the task is spawned and the vertex deleted; otherwise the count goes down
  by one and nothing is spawned. In every case the handle is left empty and the task
  pointer is returned.
\<close>

theorem accessor_release_runs_release_continuation:
  assumes "m_handle th \<noteq> nullptr" and "tasks h (m_handle th) = Some t"
  shows "(m_dynamic_state t = nullptr \<longrightarrow>
            task_handle_accessor_release th h = Inr ((m_handle th, th\<lparr>m_handle := nullptr\<rparr>), h))
       \<and> (\<forall>s. m_dynamic_state t \<noteq> nullptr \<and> states h (m_dynamic_state t) = Some s \<longrightarrow>
            (m_continuation_vertex s = nullptr \<longrightarrow>
               task_handle_accessor_release th h = Inr ((m_handle th, th\<lparr>m_handle := nullptr\<rparr>), h))
          \<and> (m_continuation_vertex s \<noteq> nullptr \<longrightarrow>
               task_handle_accessor_release th h =
                 (case release_continuation (m_dynamic_state t) h of Inl e \<Rightarrow> Inl e
                  | Inr h1 \<Rightarrow> Inr ((m_handle th, th\<lparr>m_handle := nullptr\<rparr>), h1))
             \<and> release_continuation (m_dynamic_state t) h =
                 (case release_bypass (m_continuation_vertex s) 1 h of Inl e \<Rightarrow> Inl e
                  | Inr (task, h1) \<Rightarrow> Inr (if task \<noteq> nullptr then spawn task h1 else h1))
             \<and> (\<forall>v. vertices h (m_continuation_vertex s) = Some v \<and> m_ref_count v \<noteq> 1 \<longrightarrow>
                  task_handle_accessor_release th h =
                    Inr ((m_handle th, th\<lparr>m_handle := nullptr\<rparr>),
                         h\<lparr>vertices := (vertices h)
                             (m_continuation_vertex s \<mapsto> v\<lparr>m_ref_count := m_ref_count v - 1\<rparr>)\<rparr>))
             \<and> (\<forall>v. vertices h (m_continuation_vertex s) = Some v \<and> m_ref_count v = 1
                     \<and> vertex_task v = m_handle th \<longrightarrow>
                  task_handle_accessor_release th h =
                    Inr ((m_handle th, th\<lparr>m_handle := nullptr\<rparr>),
                         h\<lparr>states := (states h)
                             (m_dynamic_state t \<mapsto> s\<lparr>m_continuation_vertex := nullptr\<rparr>),
                           vertices := (vertices h)(m_continuation_vertex s := None),
                           spawned := spawned h @ [m_handle th]\<rparr>))))"
proof (intro conjI impI allI; (elim conjE)?)
  assume "m_dynamic_state t = nullptr"
  then show "task_handle_accessor_release th h = Inr ((m_handle th, th\<lparr>m_handle := nullptr\<rparr>), h)"
    using assms
    by (simp add: task_handle_accessor_release_def task_release_continuation_def deref_nonnull
        task_handle_release_def)
next
  fix s
  assume "m_dynamic_state t \<noteq> nullptr" "states h (m_dynamic_state t) = Some s"
    "m_continuation_vertex s = nullptr"
  then show "task_handle_accessor_release th h = Inr ((m_handle th, th\<lparr>m_handle := nullptr\<rparr>), h)"
    using assms
    by (simp add: task_handle_accessor_release_def task_release_continuation_def deref_nonnull
        task_handle_release_def has_dependencies_def)
next
  fix s
  assume "m_dynamic_state t \<noteq> nullptr" "states h (m_dynamic_state t) = Some s"
    "m_continuation_vertex s \<noteq> nullptr"
  then show "task_handle_accessor_release th h =
      (case release_continuation (m_dynamic_state t) h of Inl e \<Rightarrow> Inl e
       | Inr h1 \<Rightarrow> Inr ((m_handle th, th\<lparr>m_handle := nullptr\<rparr>), h1))"
    using assms
    by (simp add: task_handle_accessor_release_def task_release_continuation_def deref_nonnull
        task_handle_release_def has_dependencies_def split: sum.splits)
next
  fix s
  assume "m_dynamic_state t \<noteq> nullptr" "states h (m_dynamic_state t) = Some s"
    "m_continuation_vertex s \<noteq> nullptr"
  then show "release_continuation (m_dynamic_state t) h =
      (case release_bypass (m_continuation_vertex s) 1 h of Inl e \<Rightarrow> Inl e
       | Inr (task, h1) \<Rightarrow> Inr (if task \<noteq> nullptr then spawn task h1 else h1))"
    by (rule release_continuation_eq)
next
  fix s v
  assume a: "m_dynamic_state t \<noteq> nullptr" "states h (m_dynamic_state t) = Some s"
    "m_continuation_vertex s \<noteq> nullptr"
    and v: "vertices h (m_continuation_vertex s) = Some v" "m_ref_count v \<noteq> 1"
  show "task_handle_accessor_release th h =
      Inr ((m_handle th, th\<lparr>m_handle := nullptr\<rparr>),
           h\<lparr>vertices := (vertices h)
               (m_continuation_vertex s \<mapsto> v\<lparr>m_ref_count := m_ref_count v - 1\<rparr>)\<rparr>)"
    using assms a
    by (simp add: task_handle_accessor_release_def task_release_continuation_def deref_nonnull
        task_handle_release_def has_dependencies_def release_continuation_eq [OF a]
        release_bypass_not_last [OF a(3) v])
next
  fix s v
  assume a: "m_dynamic_state t \<noteq> nullptr" "states h (m_dynamic_state t) = Some s"
    "m_continuation_vertex s \<noteq> nullptr"
    and v: "vertices h (m_continuation_vertex s) = Some v" "m_ref_count v = 1"
    and task: "vertex_task v = m_handle th"
  have "release_bypass (m_continuation_vertex s) 1 h =
          Inr (vertex_task v,
               h\<lparr>states := (states h)(m_dynamic_state t \<mapsto> s\<lparr>m_continuation_vertex := nullptr\<rparr>),
                 vertices := (vertices h)(m_continuation_vertex s := None)\<rparr>)"
    using assms a v task by (intro release_bypass_last) simp_all
  then show "task_handle_accessor_release th h =
      Inr ((m_handle th, th\<lparr>m_handle := nullptr\<rparr>),
           h\<lparr>states := (states h)
               (m_dynamic_state t \<mapsto> s\<lparr>m_continuation_vertex := nullptr\<rparr>),
             vertices := (vertices h)(m_continuation_vertex s := None),
             spawned := spawned h @ [m_handle th]\<rparr>)"
    using assms a task
    by (simp add: task_handle_accessor_release_def task_release_continuation_def deref_nonnull
        task_handle_release_def has_dependencies_def release_continuation_eq [OF a] spawn_def)
qed


text \<open>The example heap after task \<open>0x100\<close> has completed: its list is drained and
  sealed, the vertex of task \<open>0x110\<close> holds the reservation of the handle only.\<close>

definition example_completed :: heap where
  "example_completed =
     example_heap\<lparr>nodes := Map.empty,
       vertices := [0x300 \<mapsto> \<lparr>m_ref_count = 1, vertex_task = 0x110\<rparr>],
       states :=
         [0x200 \<mapsto> \<lparr>m_task = 0x100, m_successor_list_head = COMPLETED_FLAG,
                     m_continuation_vertex = 0, m_new_dynamic_state = 0,
                     m_num_references = 1\<rparr>,
          0x210 \<mapsto> \<lparr>m_task = 0x110, m_successor_list_head = 0,
                     m_continuation_vertex = 0x300, m_new_dynamic_state = 0,
                     m_num_references = 1\<rparr>]\<rparr>"

theorem accessor_release_runs_release_continuation_witness:
  "task_handle_accessor_release \<lparr>m_handle = 0x110\<rparr> example_heap =
     Inr ((0x110, \<lparr>m_handle = nullptr\<rparr>),
          example_heap\<lparr>vertices := (vertices example_heap)
            (0x300 \<mapsto> \<lparr>m_ref_count = 1, vertex_task = 0x110\<rparr>)\<rparr>)
   \<and> task_handle_accessor_release \<lparr>m_handle = 0x110\<rparr> example_completed =
     Inr ((0x110, \<lparr>m_handle = nullptr\<rparr>),
          example_completed\<lparr>states := (states example_completed)
            (0x210 \<mapsto> \<lparr>m_task = 0x110, m_successor_list_head = 0,
                        m_continuation_vertex = nullptr, m_new_dynamic_state = 0,
                        m_num_references = 1\<rparr>),
            vertices := (vertices example_completed)(0x300 := None),
            spawned := [0x110]\<rparr>)"
proof -
  let ?th = "\<lparr>m_handle = 0x110\<rparr>"
  let ?t = "\<lparr>m_dynamic_state = 0x210\<rparr>"
  let ?s = "\<lparr>m_task = 0x110, m_successor_list_head = 0, m_continuation_vertex = 0x300,
             m_new_dynamic_state = 0, m_num_references = 1\<rparr>"
  let ?v2 = "\<lparr>m_ref_count = 2, vertex_task = 0x110\<rparr>"
  let ?v1 = "\<lparr>m_ref_count = 1, vertex_task = 0x110\<rparr>"
  have c: "m_continuation_vertex ?s \<noteq> nullptr"
    by (simp add: nullptr_def)
  have a: "m_handle ?th \<noteq> nullptr" "tasks example_heap (m_handle ?th) = Some ?t"
    by (simp_all add: example_heap_def nullptr_def)
  have b: "m_dynamic_state ?t \<noteq> nullptr \<and> states example_heap (m_dynamic_state ?t) = Some ?s"
    by (simp add: example_heap_def nullptr_def)
  have d: "vertices example_heap (m_continuation_vertex ?s) = Some ?v2 \<and> m_ref_count ?v2 \<noteq> 1"
    by (simp add: example_heap_def)
  note first = accessor_release_runs_release_continuation [OF a, THEN conjunct2, rule_format,
      OF b, THEN conjunct2, rule_format, OF c, THEN conjunct2, THEN conjunct2, THEN conjunct1,
      rule_format, OF d]
  have a': "m_handle ?th \<noteq> nullptr" "tasks example_completed (m_handle ?th) = Some ?t"
    by (simp_all add: example_completed_def example_heap_def nullptr_def)
  have b': "m_dynamic_state ?t \<noteq> nullptr
      \<and> states example_completed (m_dynamic_state ?t) = Some ?s"
    by (simp add: example_completed_def nullptr_def)
  have d': "vertices example_completed (m_continuation_vertex ?s) = Some ?v1
      \<and> m_ref_count ?v1 = 1 \<and> vertex_task ?v1 = m_handle ?th"
    by (simp add: example_completed_def)
  note second = accessor_release_runs_release_continuation [OF a', THEN conjunct2, rule_format,
      OF b', THEN conjunct2, rule_format, OF c, THEN conjunct2, THEN conjunct2, THEN conjunct2,
      rule_format, OF d']
  from first second show ?thesis
    by (simp add: example_completed_def example_heap_def)
qed


section \<open>task\_completion\_handle\<close>

text \<open>
  A \<^verbatim>\<open>task_completion_handle\<close> is an object of the client; \<open>this\<close> and \<open>other\<close> are
  the addresses of such objects in \<open>completion_handles\<close>, so that \<^verbatim>\<open>this != &other\<close>
  is the comparison of the two addresses. A \<^verbatim>\<open>task_handle\<close> argument is passed by
  \<^verbatim>\<open>const\<close> reference and only read: it is a value here.
\<close>

definition task_completion_handle_ctor :: "ptr \<Rightarrow> heap \<Rightarrow> heap" where
  "task_completion_handle_ctor this h =
     h\<lparr>completion_handles := (completion_handles h)(this \<mapsto> \<lparr>m_task_state = nullptr\<rparr>)\<rparr>"

definition task_completion_handle_copy_ctor :: "ptr \<Rightarrow> ptr \<Rightarrow> heap \<Rightarrow> error + heap" where
  "task_completion_handle_copy_ctor this other h =
     (case deref (completion_handles h) other of Inl e \<Rightarrow> Inl e
      | Inr src \<Rightarrow>
          let h1 = h\<lparr>completion_handles :=
                      (completion_handles h)(this \<mapsto> \<lparr>m_task_state = m_task_state src\<rparr>)\<rparr>
          in if m_task_state src \<noteq> nullptr then reserve (m_task_state src) h1 else Inr h1)"

definition task_completion_handle_move_ctor :: "ptr \<Rightarrow> ptr \<Rightarrow> heap \<Rightarrow> error + heap" where
  "task_completion_handle_move_ctor this other h =
     (case deref (completion_handles h) other of Inl e \<Rightarrow> Inl e
      | Inr src \<Rightarrow>
          let h1 = h\<lparr>completion_handles :=
                      (completion_handles h)(this \<mapsto> \<lparr>m_task_state = m_task_state src\<rparr>)\<rparr>
          in (case deref (completion_handles h1) other of Inl e \<Rightarrow> Inl e
              | Inr src' \<Rightarrow>
                  Inr (h1\<lparr>completion_handles :=
                           (completion_handles h1)(other \<mapsto> src'\<lparr>m_task_state := nullptr\<rparr>)\<rparr>)))"

text \<open>\<^verbatim>\<open>task_completion_handle(const task_handle& th)\<close>: the member initializer
  \<^verbatim>\<open>m_task_state(th.m_handle->get_dynamic_state())\<close> runs before the body, which
  asserts \<^verbatim>\<open>th\<close> and reserves.\<close>

definition task_completion_handle_from_task_handle ::
    "ptr \<Rightarrow> task_handle \<Rightarrow> heap \<Rightarrow> error + heap" where
  "task_completion_handle_from_task_handle this th h =
     (case get_dynamic_state (m_handle th) h of Inl e \<Rightarrow> Inl e
      | Inr (st, h1) \<Rightarrow>
          let h2 = h1\<lparr>completion_handles :=
                       (completion_handles h1)(this \<mapsto> \<lparr>m_task_state = st\<rparr>)\<rparr>
          in (case TBB_ASSERT (task_handle_bool th)
                     ''Construction of task_completion_handle from an empty task_handle'' h2 of
                Inl e \<Rightarrow> Inl e
              | Inr _ \<Rightarrow> reserve st h2))"

definition task_completion_handle_dtor :: "ptr \<Rightarrow> heap \<Rightarrow> error + heap" where
  "task_completion_handle_dtor this h =
     (case deref (completion_handles h) this of Inl e \<Rightarrow> Inl e
      | Inr c \<Rightarrow>
          (case (if m_task_state c \<noteq> nullptr then release (m_task_state c) h else Inr h) of
             Inl e \<Rightarrow> Inl e
           | Inr h1 \<Rightarrow> Inr (h1\<lparr>completion_handles := (completion_handles h1)(this := None)\<rparr>)))"

text \<open>\<^verbatim>\<open>operator=(const task_completion_handle& other)\<close>\<close>

definition task_completion_handle_copy_assign :: "ptr \<Rightarrow> ptr \<Rightarrow> heap \<Rightarrow> error + heap" where
  "task_completion_handle_copy_assign this other h =
     (if this \<noteq> other then
        (case deref (completion_handles h) this of Inl e \<Rightarrow> Inl e
         | Inr c \<Rightarrow>
             (case (if m_task_state c \<noteq> nullptr then release (m_task_state c) h else Inr h) of
                Inl e \<Rightarrow> Inl e
              | Inr h1 \<Rightarrow>
                  (case deref (completion_handles h1) other of Inl e \<Rightarrow> Inl e
                   | Inr src \<Rightarrow>
                       let h2 = h1\<lparr>completion_handles :=
                                    (completion_handles h1)(this \<mapsto> c\<lparr>m_task_state := m_task_state src\<rparr>)\<rparr>
                       in if m_task_state src \<noteq> nullptr then reserve (m_task_state src) h2
                          else Inr h2)))
      else Inr h)"

text \<open>\<^verbatim>\<open>operator=(task_completion_handle&& other)\<close>\<close>

definition task_completion_handle_move_assign :: "ptr \<Rightarrow> ptr \<Rightarrow> heap \<Rightarrow> error + heap" where
  "task_completion_handle_move_assign this other h =
     (if this \<noteq> other then
        (case deref (completion_handles h) this of Inl e \<Rightarrow> Inl e
         | Inr c \<Rightarrow>
             (case (if m_task_state c \<noteq> nullptr then release (m_task_state c) h else Inr h) of
                Inl e \<Rightarrow> Inl e
              | Inr h1 \<Rightarrow>
                  (case deref (completion_handles h1) other of Inl e \<Rightarrow> Inl e
                   | Inr src \<Rightarrow>
                       Inr (h1\<lparr>completion_handles :=
                                (completion_handles h1)
                                  (this \<mapsto> c\<lparr>m_task_state := m_task_state src\<rparr>,
                                   other \<mapsto> src\<lparr>m_task_state := nullptr\<rparr>)\<rparr>))))
      else Inr h)"

text \<open>\<^verbatim>\<open>operator=(const task_handle& th)\<close>\<close>

definition task_completion_handle_assign_task_handle ::
    "ptr \<Rightarrow> task_handle \<Rightarrow> heap \<Rightarrow> error + heap" where
  "task_completion_handle_assign_task_handle this th h =
     (case TBB_ASSERT (task_handle_bool th)
             ''Assignment of task_completion_state from an empty task_handle'' h of
        Inl e \<Rightarrow> Inl e
      | Inr _ \<Rightarrow>
          (case deref (completion_handles h) this of Inl e \<Rightarrow> Inl e
           | Inr c \<Rightarrow>
               (case (if m_task_state c \<noteq> nullptr then release (m_task_state c) h else Inr h) of
                  Inl e \<Rightarrow> Inl e
                | Inr h1 \<Rightarrow>
                    (case get_dynamic_state (m_handle th) h1 of Inl e \<Rightarrow> Inl e
                     | Inr (st, h2) \<Rightarrow>
                         let h3 = h2\<lparr>completion_handles :=
                                      (completion_handles h2)(this \<mapsto> c\<lparr>m_task_state := st\<rparr>)\<rparr>
                         in (case TBB_ASSERT (st \<noteq> nullptr)
                                    ''No state in the non-empty task_handle'' h3 of
                               Inl e \<Rightarrow> Inl e
                             | Inr _ \<Rightarrow> reserve st h3)))))"

text \<open>\<^verbatim>\<open>explicit operator bool()\<close> and the comparison with \<^verbatim>\<open>nullptr\<close>\<close>

definition task_completion_handle_bool :: "ptr \<Rightarrow> heap \<Rightarrow> error + bool" where
  "task_completion_handle_bool this h =
     (case deref (completion_handles h) this of Inl e \<Rightarrow> Inl e
      | Inr c \<Rightarrow> Inr (m_task_state c \<noteq> nullptr))"

definition task_completion_handle_eq_nullptr :: "ptr \<Rightarrow> heap \<Rightarrow> error + bool" where
  "task_completion_handle_eq_nullptr t h =
     (case deref (completion_handles h) t of Inl e \<Rightarrow> Inl e
      | Inr c \<Rightarrow> Inr (m_task_state c = nullptr))"

definition task_completion_handle_eq :: "ptr \<Rightarrow> ptr \<Rightarrow> heap \<Rightarrow> error + bool" where
  "task_completion_handle_eq lhs rhs h =
     (case deref (completion_handles h) lhs of Inl e \<Rightarrow> Inl e
      | Inr l \<Rightarrow>
          (case deref (completion_handles h) rhs of Inl e \<Rightarrow> Inl e
           | Inr r \<Rightarrow> Inr (m_task_state l = m_task_state r)))"

text \<open>
  C9. In a debug build the construction of a \<open>task_completion_handle\<close> from an empty
  \<open>task_handle\<close> is to be caught by the assertion before the null task is
  dereferenced. The constructor reads \<open>th.m_handle->get_dynamic_state()\<close> in its
  member initializer, before the assertion of its body: on an empty handle the result
  is the null dereference, in every build, and the assertion is never reached. The
  assignment from a \<open>task_handle\<close> asserts first and does stop at the assertion.
\<close>

theorem completion_handle_from_empty_task_handle:
  "task_completion_handle_from_task_handle this \<lparr>m_handle = nullptr\<rparr> h = Inl Null_dereference
   \<and> task_completion_handle_assign_task_handle this \<lparr>m_handle = nullptr\<rparr>
        (h\<lparr>TBB_USE_ASSERT := True\<rparr>)
      = Inl (Assertion_failed ''Assignment of task_completion_state from an empty task_handle'')"
  by (simp add: task_completion_handle_from_task_handle_def get_dynamic_state_eq
      task_completion_handle_assign_task_handle_def TBB_ASSERT_def task_handle_bool_def)


lemma task_completion_handle_update:
  "(c :: task_completion_handle)\<lparr>m_task_state := st\<rparr> = \<lparr>m_task_state = st\<rparr>"
  by (cases c) simp

lemma release_completion_handles:
  "release p h = Inr h' \<Longrightarrow> completion_handles h' = completion_handles h"
proof (induction p h arbitrary: h' rule: release.induct)
  case (1 this h)
  show ?case
  proof (cases "deref (states h) this")
    case (Inl e)
    with "1.prems" show ?thesis
      by (simp add: release.simps [of this h])
  next
    case (Inr s)
    let ?h1 = "h\<lparr>states := (states h)(this \<mapsto> s\<lparr>m_num_references := m_num_references s - 1\<rparr>)\<rparr>"
    show ?thesis
    proof (cases "m_num_references s - 1 = 0 \<and> m_new_dynamic_state s \<noteq> nullptr")
      case True
      then obtain h2 where h2: "release (m_new_dynamic_state s) ?h1 = Inr h2"
        and h': "h' = h2\<lparr>states := (states h2)(this := None)\<rparr>"
        using "1.prems" Inr
        by (auto simp: release.simps [of this h] Let_def split: sum.splits)
      have "completion_handles h2 = completion_handles ?h1"
        using "1.IH" [OF Inr refl _ refl _ h2] True by simp
      then show ?thesis
        by (simp add: h')
    next
      case False
      then show ?thesis
        using "1.prems" Inr
        by (auto simp: release.simps [of this h] Let_def split: sum.splits if_splits)
    qed
  qed
qed

text \<open>
  C10, as the code has it. After a move-construction, and after a move-assignment
  between two distinct handle objects, the moved-from handle is empty: its \<open>bool\<close>
  conversion is false and it compares equal to \<open>nullptr\<close>. The move-construction
  changes the two handle objects only, no count. The move-assignment does no reserve;
  it releases the state that the destination tracked before, if any, once, and changes
  no count when the destination was empty. A move-assignment of a handle to itself
  changes nothing.
\<close>

theorem move_empties_the_source:
  assumes "other \<noteq> nullptr" and "completion_handles h other = Some src"
  shows "task_completion_handle_move_ctor this other h =
           Inr (h\<lparr>completion_handles := (completion_handles h)
                   (this \<mapsto> \<lparr>m_task_state = m_task_state src\<rparr>,
                    other \<mapsto> \<lparr>m_task_state = nullptr\<rparr>)\<rparr>)
       \<and> (\<forall>c. this \<noteq> other \<and> this \<noteq> nullptr \<and> completion_handles h this = Some c \<longrightarrow>
            task_completion_handle_move_assign this other h =
              (case (if m_task_state c \<noteq> nullptr then release (m_task_state c) h else Inr h) of
                 Inl e \<Rightarrow> Inl e
               | Inr h1 \<Rightarrow>
                   Inr (h1\<lparr>completion_handles := (completion_handles h)
                           (this \<mapsto> \<lparr>m_task_state = m_task_state src\<rparr>,
                            other \<mapsto> \<lparr>m_task_state = nullptr\<rparr>)\<rparr>)))
       \<and> (\<forall>h'. h' = h\<lparr>completion_handles := (completion_handles h)
                         (this \<mapsto> \<lparr>m_task_state = m_task_state src\<rparr>,
                          other \<mapsto> \<lparr>m_task_state = nullptr\<rparr>)\<rparr> \<longrightarrow>
            task_completion_handle_bool other h' = Inr False
          \<and> task_completion_handle_eq_nullptr other h' = Inr True
          \<and> states h' = states h)
       \<and> task_completion_handle_move_assign other other h = Inr h"
proof (intro conjI allI impI)
  show "task_completion_handle_move_ctor this other h =
      Inr (h\<lparr>completion_handles := (completion_handles h)
              (this \<mapsto> \<lparr>m_task_state = m_task_state src\<rparr>,
               other \<mapsto> \<lparr>m_task_state = nullptr\<rparr>)\<rparr>)"
    using assms
    by (simp add: task_completion_handle_move_ctor_def deref_nonnull Let_def
        task_completion_handle_update)
next
  fix c
  assume c: "this \<noteq> other \<and> this \<noteq> nullptr \<and> completion_handles h this = Some c"
  show "task_completion_handle_move_assign this other h =
      (case (if m_task_state c \<noteq> nullptr then release (m_task_state c) h else Inr h) of
         Inl e \<Rightarrow> Inl e
       | Inr h1 \<Rightarrow>
           Inr (h1\<lparr>completion_handles := (completion_handles h)
                   (this \<mapsto> \<lparr>m_task_state = m_task_state src\<rparr>,
                    other \<mapsto> \<lparr>m_task_state = nullptr\<rparr>)\<rparr>))"
  proof (cases "m_task_state c \<noteq> nullptr")
    case True
    show ?thesis
    proof (cases "release (m_task_state c) h")
      case (Inl e)
      then show ?thesis
        using assms c True by (simp add: task_completion_handle_move_assign_def deref_nonnull
            task_completion_handle_update)
    next
      case (Inr h1)
      then have "completion_handles h1 = completion_handles h"
        by (rule release_completion_handles)
      then show ?thesis
        using assms c True Inr
        by (simp add: task_completion_handle_move_assign_def deref_nonnull
            task_completion_handle_update)
    qed
  next
    case False
    then show ?thesis
      using assms c by (simp add: task_completion_handle_move_assign_def deref_nonnull
            task_completion_handle_update)
  qed
next
  fix h'
  assume h': "h' = h\<lparr>completion_handles := (completion_handles h)
                         (this \<mapsto> \<lparr>m_task_state = m_task_state src\<rparr>,
                          other \<mapsto> \<lparr>m_task_state = nullptr\<rparr>)\<rparr>"
  show "task_completion_handle_bool other h' = Inr False"
    using assms by (simp add: h' task_completion_handle_bool_def deref_nonnull)
  show "task_completion_handle_eq_nullptr other h' = Inr True"
    using assms by (simp add: h' task_completion_handle_eq_nullptr_def deref_nonnull)
  show "states h' = states h"
    by (simp add: h')
next
  show "task_completion_handle_move_assign other other h = Inr h"
    by (simp add: task_completion_handle_move_assign_def)
qed

text \<open>The example heap with two completion handles on the state \<open>0x210\<close>, which counts
  them and its task, and an empty handle.\<close>

definition example_handles :: heap where
  "example_handles =
     example_heap\<lparr>completion_handles :=
       [0x600 \<mapsto> \<lparr>m_task_state = 0x210\<rparr>, 0x608 \<mapsto> \<lparr>m_task_state = 0x210\<rparr>,
        0x610 \<mapsto> \<lparr>m_task_state = 0\<rparr>],
       states := (states example_heap)
         (0x210 \<mapsto> \<lparr>m_task = 0x110, m_successor_list_head = 0,
                     m_continuation_vertex = 0x300, m_new_dynamic_state = 0,
                     m_num_references = 3\<rparr>)\<rparr>"

theorem move_empties_the_source_witness:
  "task_completion_handle_move_assign 0x610 0x600 example_handles =
     Inr (example_handles\<lparr>completion_handles := (completion_handles example_handles)
            (0x610 \<mapsto> \<lparr>m_task_state = 0x210\<rparr>, 0x600 \<mapsto> \<lparr>m_task_state = nullptr\<rparr>)\<rparr>)"
proof -
  have a: "0x600 \<noteq> nullptr"
    "completion_handles example_handles 0x600 = Some \<lparr>m_task_state = 0x210\<rparr>"
    by (simp_all add: example_handles_def nullptr_def)
  have c: "0x610 \<noteq> (0x600 :: ptr) \<and> 0x610 \<noteq> nullptr
      \<and> completion_handles example_handles 0x610 = Some \<lparr>m_task_state = 0\<rparr>"
    by (simp add: example_handles_def nullptr_def)
  from move_empties_the_source [OF a, of "0x610", THEN conjunct2, THEN conjunct1, rule_format, OF c]
  show ?thesis
    by (simp add: nullptr_def)
qed

text \<open>The claim as stated fails for a self-move-assignment, which keeps the handle and
  its state, and for a destination that tracks the state of the source, which loses
  one reference by the move.\<close>

theorem move_assignment_counterexample:
  "task_completion_handle_move_assign 0x600 0x600 example_handles = Inr example_handles
   \<and> task_completion_handle_bool 0x600 example_handles = Inr True
   \<and> (case task_completion_handle_move_assign 0x608 0x600 example_handles of
        Inl e \<Rightarrow> None
      | Inr h' \<Rightarrow> map_option m_num_references (states h' 0x210)) = Some 2
   \<and> map_option m_num_references (states example_handles 0x210) = Some 3"
  by (simp add: task_completion_handle_move_assign_def task_completion_handle_bool_def
      example_handles_def example_heap_def deref_def nullptr_def release.simps Let_def)


section \<open>task\_dynamic\_state: the successor list\<close>

text \<open>\<^verbatim>\<open>m_successor_list_head.compare_exchange_strong(expected, desired)\<close> and
  \<^verbatim>\<open>m_continuation_vertex.compare_exchange_strong(expected, desired)\<close>: the result and
  the value left in \<open>expected\<close>.\<close>

definition cas_successor_list_head ::
    "ptr \<Rightarrow> ptr \<Rightarrow> ptr \<Rightarrow> heap \<Rightarrow> error + ((bool \<times> ptr) \<times> heap)" where
  "cas_successor_list_head this expected desired h =
     (case deref (states h) this of Inl e \<Rightarrow> Inl e
      | Inr s \<Rightarrow>
          if m_successor_list_head s = expected
          then Inr ((True, expected),
                    h\<lparr>states := (states h)(this \<mapsto> s\<lparr>m_successor_list_head := desired\<rparr>)\<rparr>)
          else Inr ((False, m_successor_list_head s), h))"

definition cas_continuation_vertex ::
    "ptr \<Rightarrow> ptr \<Rightarrow> ptr \<Rightarrow> heap \<Rightarrow> error + ((bool \<times> ptr) \<times> heap)" where
  "cas_continuation_vertex this expected desired h =
     (case deref (states h) this of Inl e \<Rightarrow> Inl e
      | Inr s \<Rightarrow>
          if m_continuation_vertex s = expected
          then Inr ((True, expected),
                    h\<lparr>states := (states h)(this \<mapsto> s\<lparr>m_continuation_vertex := desired\<rparr>)\<rparr>)
          else Inr ((False, m_continuation_vertex s), h))"

definition get_continuation_vertex :: "ptr \<Rightarrow> heap \<Rightarrow> error + (ptr \<times> heap)" where
  "get_continuation_vertex this h =
     (case deref (states h) this of Inl e \<Rightarrow> Inl e
      | Inr s \<Rightarrow>
          let current_continuation_vertex = m_continuation_vertex s in
          if current_continuation_vertex = nullptr then
            (case new_object h of Inl e \<Rightarrow> Inl e
             | Inr (new_continuation_vertex, h1) \<Rightarrow>
                 let h2 = h1\<lparr>vertices := (vertices h1)
                               (new_continuation_vertex \<mapsto> continuation_vertex_ctor (m_task s))\<rparr>
                 in (case cas_continuation_vertex this current_continuation_vertex
                            new_continuation_vertex h2 of
                       Inl e \<Rightarrow> Inl e
                     | Inr ((False, current_continuation_vertex'), h3) \<Rightarrow>
                         let h4 = h3\<lparr>vertices := (vertices h3)(new_continuation_vertex := None)\<rparr> in
                         (case TBB_ASSERT (current_continuation_vertex' \<noteq> nullptr)
                                 ''Failed to get continuation vertex'' h4 of
                            Inl e \<Rightarrow> Inl e
                          | Inr _ \<Rightarrow> Inr (current_continuation_vertex', h4))
                     | Inr ((True, _), h3) \<Rightarrow>
                         (case TBB_ASSERT (new_continuation_vertex \<noteq> nullptr)
                                 ''Failed to get continuation vertex'' h3 of
                            Inl e \<Rightarrow> Inl e
                          | Inr _ \<Rightarrow> Inr (new_continuation_vertex, h3))))
          else
            (case TBB_ASSERT (current_continuation_vertex \<noteq> nullptr)
                    ''Failed to get continuation vertex'' h of
               Inl e \<Rightarrow> Inl e
             | Inr _ \<Rightarrow> Inr (current_continuation_vertex, h)))"

text \<open>
  \<^verbatim>\<open>add_successor_node\<close> and \<^verbatim>\<open>check_transfer_or_completion\<close> call each other along
  the chain of forwarding states, which the code does not bound: a chain that loops
  makes the recursion run forever. Each call takes one unit of \<open>fuel\<close>, and \<open>None\<close> is
  a run that has not returned within the fuel. \<open>add_successor_node_loop\<close> is the
  \<^verbatim>\<open>while\<close> loop of \<^verbatim>\<open>add_successor_node\<close>, entered at the evaluation of its condition.
\<close>

fun add_successor_node :: "nat \<Rightarrow> ptr \<Rightarrow> ptr \<Rightarrow> heap \<Rightarrow> (error + heap) option"
  and check_transfer_or_completion ::
    "nat \<Rightarrow> ptr \<Rightarrow> ptr \<Rightarrow> ptr \<Rightarrow> heap \<Rightarrow> (error + (bool \<times> heap)) option"
  and add_successor_node_loop :: "nat \<Rightarrow> ptr \<Rightarrow> ptr \<Rightarrow> ptr \<Rightarrow> heap \<Rightarrow> (error + heap) option"
where
  "add_successor_node 0 this new_successor_node h = None"
| "add_successor_node (Suc fuel) this new_successor_node h =
     (case TBB_ASSERT (new_successor_node \<noteq> nullptr) [] h of Inl e \<Rightarrow> Some (Inl e)
      | Inr _ \<Rightarrow>
          (case deref (states h) this of Inl e \<Rightarrow> Some (Inl e)
           | Inr s \<Rightarrow>
               let current_successor_list_head = m_successor_list_head s in
               (case check_transfer_or_completion fuel this current_successor_list_head
                       new_successor_node h of
                  None \<Rightarrow> None
                | Some (Inl e) \<Rightarrow> Some (Inl e)
                | Some (Inr (True, h1)) \<Rightarrow> Some (Inr h1)
                | Some (Inr (False, h1)) \<Rightarrow>
                    (case set_next_node new_successor_node current_successor_list_head h1 of
                       Inl e \<Rightarrow> Some (Inl e)
                     | Inr h2 \<Rightarrow>
                         add_successor_node_loop fuel this current_successor_list_head
                           new_successor_node h2))))"
| "check_transfer_or_completion 0 this current_list_head new_successor_node h = None"
| "check_transfer_or_completion (Suc fuel) this current_list_head new_successor_node h =
     (if \<not> is_alive current_list_head then
        (case deref (states h) this of Inl e \<Rightarrow> Some (Inl e)
         | Inr s \<Rightarrow>
             let new_state = m_new_dynamic_state s in
             if new_state \<noteq> nullptr then
               (case add_successor_node fuel new_state new_successor_node h of
                  None \<Rightarrow> None
                | Some (Inl e) \<Rightarrow> Some (Inl e)
                | Some (Inr h1) \<Rightarrow> Some (Inr (True, h1)))
             else
               (case node_get_continuation_vertex new_successor_node h of
                  Inl e \<Rightarrow> Some (Inl e)
                | Inr v \<Rightarrow>
                    (case vertex_release v h of Inl e \<Rightarrow> Some (Inl e)
                     | Inr h1 \<Rightarrow>
                         (case node_finalize new_successor_node h1 of Inl e \<Rightarrow> Some (Inl e)
                          | Inr h2 \<Rightarrow> Some (Inr (True, h2))))))
      else Some (Inr (False, h)))"
| "add_successor_node_loop 0 this current_successor_list_head new_successor_node h = None"
| "add_successor_node_loop (Suc fuel) this current_successor_list_head new_successor_node h =
     (case cas_successor_list_head this current_successor_list_head new_successor_node h of
        Inl e \<Rightarrow> Some (Inl e)
      | Inr ((True, _), h1) \<Rightarrow> Some (Inr h1)
      | Inr ((False, current_successor_list_head'), h1) \<Rightarrow>
          (case check_transfer_or_completion fuel this current_successor_list_head'
                  new_successor_node h1 of
             None \<Rightarrow> None
           | Some (Inl e) \<Rightarrow> Some (Inl e)
           | Some (Inr (True, h2)) \<Rightarrow> Some (Inr h2)
           | Some (Inr (False, h2)) \<Rightarrow>
               (case set_next_node new_successor_node current_successor_list_head' h2 of
                  Inl e \<Rightarrow> Some (Inl e)
                | Inr h3 \<Rightarrow>
                    add_successor_node_loop fuel this current_successor_list_head'
                      new_successor_node h3)))"

text \<open>\<^verbatim>\<open>add_successor\<close> follows the forwarding states of completed predecessors, with
  the same fuel.\<close>

fun add_successor :: "nat \<Rightarrow> ptr \<Rightarrow> ptr \<Rightarrow> heap \<Rightarrow> (error + heap) option" where
  "add_successor 0 this successor h = None"
| "add_successor (Suc fuel) this successor h =
     (case TBB_ASSERT (successor \<noteq> nullptr) [] h of Inl e \<Rightarrow> Some (Inl e)
      | Inr _ \<Rightarrow>
          (case deref (states h) this of Inl e \<Rightarrow> Some (Inl e)
           | Inr s \<Rightarrow>
               let current_successor_list_head = m_successor_list_head s in
               if \<not> is_completed current_successor_list_head then
                 (case vertex_reserve successor h of Inl e \<Rightarrow> Some (Inl e)
                  | Inr h1 \<Rightarrow>
                      (case new_object h1 of Inl e \<Rightarrow> Some (Inl e)
                       | Inr (new_successor_node, h2) \<Rightarrow>
                           add_successor_node fuel this new_successor_node
                             (h2\<lparr>nodes := (nodes h2)
                                   (new_successor_node \<mapsto> successor_list_node_ctor successor)\<rparr>)))
               else
                 let new_state = m_new_dynamic_state s in
                 if new_state \<noteq> nullptr then add_successor fuel new_state successor h
                 else Some (Inr h)))"

text \<open>The first loop of \<^verbatim>\<open>add_successor_list\<close>, the walk to the last node of the list:
  it follows \<open>m_next_successor\<close> until it is null and does not end on a list that
  loops, hence the fuel.\<close>

fun find_last_node :: "nat \<Rightarrow> ptr \<Rightarrow> heap \<Rightarrow> (error + ptr) option" where
  "find_last_node 0 last_node h = None"
| "find_last_node (Suc fuel) last_node h =
     (case get_next_node last_node h of Inl e \<Rightarrow> Some (Inl e)
      | Inr next_node \<Rightarrow>
          if next_node \<noteq> nullptr then find_last_node fuel next_node h
          else Some (Inr last_node))"

text \<open>The second loop of \<^verbatim>\<open>add_successor_list\<close>, the compare-exchange of the head.\<close>

function add_successor_list_loop :: "ptr \<Rightarrow> ptr \<Rightarrow> ptr \<Rightarrow> ptr \<Rightarrow> heap \<Rightarrow> error + heap" where
  "add_successor_list_loop this current_successor_list_head successor_list last_node h =
     (case cas_successor_list_head this current_successor_list_head successor_list h of
        Inl e \<Rightarrow> Inl e
      | Inr ((True, _), h1) \<Rightarrow> Inr h1
      | Inr ((False, current_successor_list_head'), h1) \<Rightarrow>
          (case set_next_node last_node current_successor_list_head' h1 of Inl e \<Rightarrow> Inl e
           | Inr h2 \<Rightarrow>
               add_successor_list_loop this current_successor_list_head' successor_list
                 last_node h2))"
  by pat_completeness auto

definition head_differs :: "ptr \<Rightarrow> ptr \<Rightarrow> heap \<Rightarrow> nat" where
  "head_differs this expected h =
     (case states h this of None \<Rightarrow> 0
      | Some s \<Rightarrow> if m_successor_list_head s = expected then 0 else 1)"

termination add_successor_list_loop
proof (relation "measure (\<lambda>(this, expected, successor_list, last_node, h). head_differs this expected h)",
    goal_cases)
  case 1
  show ?case by simp
next
  case (2 this expected successor_list last_node h r x h1 b expected' h2)
  then show ?case
    by (auto simp: cas_successor_list_head_def set_next_node_def head_differs_def deref_Inr
        split: sum.splits if_splits)
qed

declare add_successor_list_loop.simps [simp del]

definition add_successor_list :: "nat \<Rightarrow> ptr \<Rightarrow> ptr \<Rightarrow> heap \<Rightarrow> (error + heap) option" where
  "add_successor_list fuel this successor_list h =
     (if successor_list = nullptr then Some (Inr h)
      else
        (case find_last_node fuel successor_list h of
           None \<Rightarrow> None
         | Some (Inl e) \<Rightarrow> Some (Inl e)
         | Some (Inr last_node) \<Rightarrow>
             (case deref (states h) this of Inl e \<Rightarrow> Some (Inl e)
              | Inr s \<Rightarrow>
                  let current_successor_list_head = m_successor_list_head s in
                  (case set_next_node last_node current_successor_list_head h of
                     Inl e \<Rightarrow> Some (Inl e)
                   | Inr h1 \<Rightarrow>
                       Some (add_successor_list_loop this current_successor_list_head
                               successor_list last_node h1)))))"

text \<open>
  Modelled from the spec: in \<^verbatim>\<open>transfer_successors_to\<close> the sources call
  \<^verbatim>\<open>fetch_successor_list()\<close> without the flag that its declaration requires, so the
  argument of the exchange is missing. Step 3 of the spec's \<open>transfer_successors_to\<close>
  gives it: \<open>L = succ_head.exchange(COMPLETED)\<close>.
\<close>

definition transfer_successors_to :: "nat \<Rightarrow> ptr \<Rightarrow> ptr \<Rightarrow> heap \<Rightarrow> (error + heap) option" where
  "transfer_successors_to fuel this new_dynamic_state h =
     (case TBB_ASSERT (new_dynamic_state \<noteq> nullptr) [] h of Inl e \<Rightarrow> Some (Inl e)
      | Inr _ \<Rightarrow>
          (case reserve new_dynamic_state h of Inl e \<Rightarrow> Some (Inl e)
           | Inr h1 \<Rightarrow>
               (case deref (states h1) this of Inl e \<Rightarrow> Some (Inl e)
                | Inr s \<Rightarrow>
                    let h2 = h1\<lparr>states := (states h1)
                                 (this \<mapsto> s\<lparr>m_new_dynamic_state := new_dynamic_state\<rparr>)\<rparr>
                    in (case fetch_successor_list this COMPLETED_FLAG h2 of
                          Inl e \<Rightarrow> Some (Inl e)
                        | Inr (successor_list, h3) \<Rightarrow>
                            add_successor_list fuel new_dynamic_state successor_list h3))))"

text \<open>\<^verbatim>\<open>task_handle_task::transfer_successors_to\<close>\<close>

definition task_transfer_successors_to ::
    "nat \<Rightarrow> ptr \<Rightarrow> ptr \<Rightarrow> heap \<Rightarrow> (error + heap) option" where
  "task_transfer_successors_to fuel this other_task_state h =
     (case TBB_ASSERT (other_task_state \<noteq> nullptr) [] h of Inl e \<Rightarrow> Some (Inl e)
      | Inr _ \<Rightarrow>
          (case deref (tasks h) this of Inl e \<Rightarrow> Some (Inl e)
           | Inr t \<Rightarrow>
               let current_state = m_dynamic_state t in
               if current_state \<noteq> nullptr
               then transfer_successors_to fuel current_state other_task_state h
               else Some (Inr h)))"

definition internal_set_task_order :: "nat \<Rightarrow> ptr \<Rightarrow> ptr \<Rightarrow> heap \<Rightarrow> (error + heap) option" where
  "internal_set_task_order fuel pred succ h =
     (case TBB_ASSERT (pred \<noteq> nullptr \<and> succ \<noteq> nullptr) [] h of Inl e \<Rightarrow> Some (Inl e)
      | Inr _ \<Rightarrow>
          (case get_continuation_vertex succ h of Inl e \<Rightarrow> Some (Inl e)
           | Inr (v, h1) \<Rightarrow> add_successor fuel pred v h1))"


section \<open>Adding a successor\<close>

lemma add_successor_node_alive:
  assumes "this \<noteq> nullptr" and "states h this = Some s"
    and "m_successor_list_head s \<noteq> COMPLETED_FLAG"
    and "node \<noteq> nullptr" and "nodes h node = Some n"
  shows "add_successor_node (Suc (Suc fuel)) this node h =
           Some (Inr (h\<lparr>nodes := (nodes h)(node \<mapsto> n\<lparr>m_next_successor := m_successor_list_head s\<rparr>),
                        states := (states h)(this \<mapsto> s\<lparr>m_successor_list_head := node\<rparr>)\<rparr>))"
  using assms
  by (simp add: TBB_ASSERT_def deref_nonnull is_alive_def set_next_node_def
      cas_successor_list_head_def)

lemma add_successor_alive:
  assumes "this \<noteq> nullptr" and "states h this = Some s"
    and "m_successor_list_head s \<noteq> COMPLETED_FLAG"
    and "successor \<noteq> nullptr" and "vertices h successor = Some v"
    and "free_list h = a # rest" and "a \<noteq> nullptr"
  shows "add_successor (Suc (Suc (Suc fuel))) this successor h =
           Some (Inr (h\<lparr>vertices := (vertices h)(successor \<mapsto> v\<lparr>m_ref_count := m_ref_count v + 1\<rparr>),
                        free_list := rest,
                        nodes := (nodes h)
                          (a \<mapsto> \<lparr>m_next_successor = m_successor_list_head s,
                                 node_continuation_vertex = successor\<rparr>),
                        states := (states h)(this \<mapsto> s\<lparr>m_successor_list_head := a\<rparr>)\<rparr>))"
proof -
  let ?h2 = "h\<lparr>vertices := (vertices h)(successor \<mapsto> v\<lparr>m_ref_count := m_ref_count v + 1\<rparr>),
               free_list := rest,
               nodes := (nodes h)(a \<mapsto> successor_list_node_ctor successor)\<rparr>"
  have "add_successor (Suc (Suc (Suc fuel))) this successor h =
          add_successor_node (Suc (Suc fuel)) this a ?h2"
    using assms
    by (simp add: TBB_ASSERT_def deref_nonnull is_completed_def vertex_reserve_def
        new_object_def del: add_successor_node.simps)
  also have "\<dots> = Some (Inr (?h2\<lparr>nodes := (nodes ?h2)
                 (a \<mapsto> (successor_list_node_ctor successor)\<lparr>m_next_successor := m_successor_list_head s\<rparr>),
               states := (states ?h2)(this \<mapsto> s\<lparr>m_successor_list_head := a\<rparr>)\<rparr>))"
    using assms by (intro add_successor_node_alive) simp_all
  finally show ?thesis
    by (simp add: successor_list_node_ctor_def)
qed


text \<open>
  C4, as the code has it. For a dynamic state \<open>S\<close> whose head is \<open>COMPLETED_FLAG\<close>,
  \<open>add_successor(V)\<close> does nothing at all when \<open>S\<close> has no forwarding state: the heap
  is unchanged, the count of \<open>V\<close> and the set of nodes with it. When \<open>S\<close> forwards to
  \<open>S'\<close> the call is \<open>add_successor(V)\<close> on \<open>S'\<close>: if the head of \<open>S'\<close> is alive, one
  new node for \<open>V\<close> becomes the head of the list of \<open>S'\<close> and the count of \<open>V\<close> goes up
  by one; if \<open>S'\<close> is completed as well and forwards to nothing, nothing changes.
\<close>

theorem add_successor_after_completion:
  assumes "this \<noteq> nullptr" and "states h this = Some s"
    and "m_successor_list_head s = COMPLETED_FLAG" and "successor \<noteq> nullptr"
  shows "(m_new_dynamic_state s = nullptr \<longrightarrow>
            add_successor (Suc fuel) this successor h = Some (Inr h))
       \<and> (m_new_dynamic_state s \<noteq> nullptr \<longrightarrow>
            add_successor (Suc fuel) this successor h =
              add_successor fuel (m_new_dynamic_state s) successor h)
       \<and> (\<forall>s' v a rest. m_new_dynamic_state s \<noteq> nullptr
              \<and> states h (m_new_dynamic_state s) = Some s'
              \<and> m_successor_list_head s' \<noteq> COMPLETED_FLAG
              \<and> vertices h successor = Some v \<and> free_list h = a # rest \<and> a \<noteq> nullptr \<longrightarrow>
            add_successor (Suc (Suc (Suc (Suc fuel)))) this successor h =
              Some (Inr (h\<lparr>vertices := (vertices h)
                             (successor \<mapsto> v\<lparr>m_ref_count := m_ref_count v + 1\<rparr>),
                           free_list := rest,
                           nodes := (nodes h)
                             (a \<mapsto> \<lparr>m_next_successor = m_successor_list_head s',
                                    node_continuation_vertex = successor\<rparr>),
                           states := (states h)
                             (m_new_dynamic_state s \<mapsto> s'\<lparr>m_successor_list_head := a\<rparr>)\<rparr>)))
       \<and> (\<forall>s'. m_new_dynamic_state s \<noteq> nullptr
              \<and> states h (m_new_dynamic_state s) = Some s'
              \<and> m_successor_list_head s' = COMPLETED_FLAG
              \<and> m_new_dynamic_state s' = nullptr \<longrightarrow>
            add_successor (Suc (Suc fuel)) this successor h = Some (Inr h))"
proof (intro conjI allI impI)
  assume "m_new_dynamic_state s = nullptr"
  then show "add_successor (Suc fuel) this successor h = Some (Inr h)"
    using assms by (simp add: TBB_ASSERT_def deref_nonnull is_completed_def)
next
  assume "m_new_dynamic_state s \<noteq> nullptr"
  then show "add_successor (Suc fuel) this successor h =
      add_successor fuel (m_new_dynamic_state s) successor h"
    using assms by (simp add: TBB_ASSERT_def deref_nonnull is_completed_def)
next
  fix s' v a rest
  assume a: "m_new_dynamic_state s \<noteq> nullptr
              \<and> states h (m_new_dynamic_state s) = Some s'
              \<and> m_successor_list_head s' \<noteq> COMPLETED_FLAG
              \<and> vertices h successor = Some v \<and> free_list h = a # rest \<and> a \<noteq> nullptr"
  have "add_successor (Suc (Suc (Suc (Suc fuel)))) this successor h =
      add_successor (Suc (Suc (Suc fuel))) (m_new_dynamic_state s) successor h"
    using assms a
    by (subst add_successor.simps(2))
       (simp add: TBB_ASSERT_def deref_nonnull is_completed_def del: add_successor.simps)
  also have "\<dots> =
      Some (Inr (h\<lparr>vertices := (vertices h)
                     (successor \<mapsto> v\<lparr>m_ref_count := m_ref_count v + 1\<rparr>),
                   free_list := rest,
                   nodes := (nodes h)
                     (a \<mapsto> \<lparr>m_next_successor = m_successor_list_head s',
                            node_continuation_vertex = successor\<rparr>),
                   states := (states h)
                     (m_new_dynamic_state s \<mapsto> s'\<lparr>m_successor_list_head := a\<rparr>)\<rparr>))"
    using assms a by (intro add_successor_alive) simp_all
  finally show "add_successor (Suc (Suc (Suc (Suc fuel)))) this successor h =
      Some (Inr (h\<lparr>vertices := (vertices h)
                     (successor \<mapsto> v\<lparr>m_ref_count := m_ref_count v + 1\<rparr>),
                   free_list := rest,
                   nodes := (nodes h)
                     (a \<mapsto> \<lparr>m_next_successor = m_successor_list_head s',
                            node_continuation_vertex = successor\<rparr>),
                   states := (states h)
                     (m_new_dynamic_state s \<mapsto> s'\<lparr>m_successor_list_head := a\<rparr>)\<rparr>))" .
next
  fix s'
  assume "m_new_dynamic_state s \<noteq> nullptr
              \<and> states h (m_new_dynamic_state s) = Some s'
              \<and> m_successor_list_head s' = COMPLETED_FLAG
              \<and> m_new_dynamic_state s' = nullptr"
  then show "add_successor (Suc (Suc fuel)) this successor h = Some (Inr h)"
    using assms by (simp add: TBB_ASSERT_def deref_nonnull is_completed_def)
qed

theorem add_successor_after_completion_witness:
  "add_successor 4 0x200 0x300 example_transferred =
     Some (Inr (example_transferred\<lparr>vertices := (vertices example_transferred)
                    (0x300 \<mapsto> \<lparr>m_ref_count = 3, vertex_task = 0x110\<rparr>),
                  free_list := [0x508, 0x510],
                  nodes := (nodes example_transferred)
                    (0x500 \<mapsto> \<lparr>m_next_successor = 0x400, node_continuation_vertex = 0x300\<rparr>),
                  states := (states example_transferred)
                    (0x210 \<mapsto> \<lparr>m_task = 0x110, m_successor_list_head = 0x500,
                                m_continuation_vertex = 0x300, m_new_dynamic_state = 0,
                                m_num_references = 2\<rparr>)\<rparr>))"
proof -
  let ?s = "\<lparr>m_task = 0x100, m_successor_list_head = COMPLETED_FLAG,
             m_continuation_vertex = 0, m_new_dynamic_state = 0x210,
             m_num_references = 1\<rparr>"
  let ?s' = "\<lparr>m_task = 0x110, m_successor_list_head = 0x400,
              m_continuation_vertex = 0x300, m_new_dynamic_state = 0,
              m_num_references = 2\<rparr>"
  let ?v = "\<lparr>m_ref_count = 2, vertex_task = 0x110\<rparr>"
  have a: "0x200 \<noteq> nullptr" "states example_transferred 0x200 = Some ?s"
    "m_successor_list_head ?s = COMPLETED_FLAG" "0x300 \<noteq> nullptr"
    by (simp_all add: example_transferred_def nullptr_def)
  have b: "m_new_dynamic_state ?s \<noteq> nullptr
      \<and> states example_transferred (m_new_dynamic_state ?s) = Some ?s'
      \<and> m_successor_list_head ?s' \<noteq> COMPLETED_FLAG
      \<and> vertices example_transferred 0x300 = Some ?v
      \<and> free_list example_transferred = 0x500 # [0x508, 0x510] \<and> 0x500 \<noteq> nullptr"
    by (simp add: example_transferred_def example_heap_def nullptr_def COMPLETED_FLAG_def)
  have four: "(4 :: nat) = Suc (Suc (Suc (Suc 0)))"
    by simp
  from add_successor_after_completion [OF a, THEN conjunct2, THEN conjunct2, THEN conjunct1,
      rule_format, OF b, of 0]
  show ?thesis
    unfolding four by simp
qed

text \<open>The state \<open>0x200\<close> has handed over to \<open>0x210\<close>, and the task of \<open>0x210\<close> has
  completed since: both are sealed, \<open>0x200\<close> forwards to \<open>0x210\<close>, which forwards to
  nothing.\<close>

definition example_both_completed :: heap where
  "example_both_completed =
     example_heap\<lparr>nodes := Map.empty,
       vertices := [0x308 \<mapsto> \<lparr>m_ref_count = 1, vertex_task = 0x120\<rparr>],
       states :=
         [0x200 \<mapsto> \<lparr>m_task = 0x100, m_successor_list_head = COMPLETED_FLAG,
                     m_continuation_vertex = 0, m_new_dynamic_state = 0x210,
                     m_num_references = 1\<rparr>,
          0x210 \<mapsto> \<lparr>m_task = 0x110, m_successor_list_head = COMPLETED_FLAG,
                     m_continuation_vertex = 0, m_new_dynamic_state = 0,
                     m_num_references = 2\<rparr>,
          0x220 \<mapsto> \<lparr>m_task = 0x120, m_successor_list_head = 0,
                     m_continuation_vertex = 0x308, m_new_dynamic_state = 0,
                     m_num_references = 1\<rparr>],
       tasks := [0x100 \<mapsto> \<lparr>m_dynamic_state = 0x200\<rparr>, 0x110 \<mapsto> \<lparr>m_dynamic_state = 0x210\<rparr>,
                 0x120 \<mapsto> \<lparr>m_dynamic_state = 0x220\<rparr>]\<rparr>"

text \<open>The claim as stated fails there: the state \<open>0x200\<close> is completed and has a
  forwarding state, and \<open>add_successor\<close> inserts no node under it.\<close>

theorem add_successor_after_completion_counterexample:
  "map_option m_successor_list_head (states example_both_completed 0x200) = Some COMPLETED_FLAG
   \<and> map_option m_new_dynamic_state (states example_both_completed 0x200) = Some 0x210
   \<and> add_successor 2 0x200 0x308 example_both_completed = Some (Inr example_both_completed)
   \<and> nodes example_both_completed = Map.empty"
proof -
  have two: "(2 :: nat) = Suc (Suc 0)"
    by simp
  show ?thesis
    unfolding two
    by (simp add: example_both_completed_def example_heap_def TBB_ASSERT_def deref_def
        is_completed_def nullptr_def COMPLETED_FLAG_def)
qed


section \<open>Adding several edges between two tasks\<close>

text \<open>The addition of \<open>k\<close> edges from the task of \<open>pred\<close> to the task of \<open>succ\<close>:
  \<open>internal_set_task_order(pred, succ)\<close>, \<open>k\<close> times in a row.\<close>

fun set_task_order_times ::
    "nat \<Rightarrow> nat \<Rightarrow> ptr \<Rightarrow> ptr \<Rightarrow> heap \<Rightarrow> (error + heap) option" where
  "set_task_order_times 0 fuel pred succ h = Some (Inr h)"
| "set_task_order_times (Suc k) fuel pred succ h =
     (case internal_set_task_order fuel pred succ h of
        None \<Rightarrow> None
      | Some (Inl e) \<Rightarrow> Some (Inl e)
      | Some (Inr h1) \<Rightarrow> set_task_order_times k fuel pred succ h1)"

text \<open>\<open>edge_ready pred succ V c h\<close>: the state \<open>pred\<close> is alive, the state \<open>succ\<close> has
  the continuation vertex \<open>V\<close>, whose count is \<open>c\<close>.\<close>

definition edge_ready :: "ptr \<Rightarrow> ptr \<Rightarrow> ptr \<Rightarrow> 64 word \<Rightarrow> heap \<Rightarrow> bool" where
  "edge_ready pred succ V c h \<longleftrightarrow>
     pred \<noteq> nullptr \<and> succ \<noteq> nullptr \<and> V \<noteq> nullptr
     \<and> (case states h pred of None \<Rightarrow> False
         | Some sp \<Rightarrow> m_successor_list_head sp \<noteq> COMPLETED_FLAG)
     \<and> (case states h succ of None \<Rightarrow> False | Some ss \<Rightarrow> m_continuation_vertex ss = V)
     \<and> (case vertices h V of None \<Rightarrow> False | Some v \<Rightarrow> m_ref_count v = c)"

lemma get_continuation_vertex_existing:
  assumes "this \<noteq> nullptr" and "states h this = Some s" and "m_continuation_vertex s \<noteq> nullptr"
  shows "get_continuation_vertex this h = Inr (m_continuation_vertex s, h)"
  using assms by (simp add: get_continuation_vertex_def deref_nonnull TBB_ASSERT_def)

lemma get_continuation_vertex_fresh:
  assumes "this \<noteq> nullptr" and "states h this = Some s" and "m_continuation_vertex s = nullptr"
    and "free_list h = a # rest" and "a \<noteq> nullptr"
  shows "get_continuation_vertex this h =
           Inr (a, h\<lparr>free_list := rest,
                    vertices := (vertices h)(a \<mapsto> continuation_vertex_ctor (m_task s)),
                    states := (states h)(this \<mapsto> s\<lparr>m_continuation_vertex := a\<rparr>)\<rparr>)"
  using assms
  by (simp add: get_continuation_vertex_def deref_nonnull TBB_ASSERT_def new_object_def
      cas_continuation_vertex_def Let_def)

lemma set_task_order_step:
  assumes ready: "edge_ready pred succ V c h"
    and pool: "free_list h = a # rest" "a \<noteq> nullptr" "a \<noteq> COMPLETED_FLAG"
  shows "\<exists>h'. internal_set_task_order (Suc (Suc (Suc fuel))) pred succ h = Some (Inr h')
           \<and> edge_ready pred succ V (c + 1) h' \<and> free_list h' = rest"
proof -
  from ready obtain sp ss v where
    ptrs: "pred \<noteq> nullptr" "succ \<noteq> nullptr" "V \<noteq> nullptr"
    and sp: "states h pred = Some sp" "m_successor_list_head sp \<noteq> COMPLETED_FLAG"
    and ss: "states h succ = Some ss" "m_continuation_vertex ss = V"
    and v: "vertices h V = Some v" "m_ref_count v = c"
    by (auto simp: edge_ready_def split: option.splits)
  have "get_continuation_vertex succ h = Inr (V, h)"
    using get_continuation_vertex_existing [OF ptrs(2) ss(1)] ss(2) ptrs(3) by simp
  then have "internal_set_task_order (Suc (Suc (Suc fuel))) pred succ h =
      add_successor (Suc (Suc (Suc fuel))) pred V h"
    using ptrs by (simp add: internal_set_task_order_def TBB_ASSERT_def del: add_successor.simps)
  also note add_successor_alive [OF ptrs(1) sp ptrs(3) v(1) pool(1,2)]
  finally have run: "internal_set_task_order (Suc (Suc (Suc fuel))) pred succ h =
      Some (Inr (h\<lparr>vertices := (vertices h)(V \<mapsto> v\<lparr>m_ref_count := m_ref_count v + 1\<rparr>),
                   free_list := rest,
                   nodes := (nodes h)
                     (a \<mapsto> \<lparr>m_next_successor = m_successor_list_head sp,
                            node_continuation_vertex = V\<rparr>),
                   states := (states h)(pred \<mapsto> sp\<lparr>m_successor_list_head := a\<rparr>)\<rparr>))"
    (is "_ = Some (Inr ?h')") .
  have "edge_ready pred succ V (c + 1) ?h'"
    using ptrs sp ss v pool by (auto simp: edge_ready_def)
  with run show ?thesis
    by simp
qed

lemma set_task_order_times_ready:
  assumes "edge_ready pred succ V c h"
    and "k \<le> length (free_list h)"
    and "nullptr \<notin> set (free_list h)" and "COMPLETED_FLAG \<notin> set (free_list h)"
  shows "\<exists>h'. set_task_order_times k (Suc (Suc (Suc fuel))) pred succ h = Some (Inr h')
           \<and> edge_ready pred succ V (c + of_nat k) h'
           \<and> free_list h' = drop k (free_list h)"
  using assms
proof (induction k arbitrary: h c)
  case 0
  then show ?case by simp
next
  case (Suc k)
  then obtain a rest where pool: "free_list h = a # rest"
    by (cases "free_list h") auto
  with Suc.prems have a: "a \<noteq> nullptr" "a \<noteq> COMPLETED_FLAG"
    by auto
  from set_task_order_step [OF Suc.prems(1) pool a, of fuel]
  obtain h1 where step: "internal_set_task_order (Suc (Suc (Suc fuel))) pred succ h = Some (Inr h1)"
    and ready1: "edge_ready pred succ V (c + 1) h1" and pool1: "free_list h1 = rest"
    by blast
  have "\<exists>h'. set_task_order_times k (Suc (Suc (Suc fuel))) pred succ h1 = Some (Inr h')
           \<and> edge_ready pred succ V (c + 1 + of_nat k) h'
           \<and> free_list h' = drop k (free_list h1)"
    using Suc.prems pool pool1 by (intro Suc.IH [OF ready1]) auto
  moreover have "c + 1 + of_nat k = c + of_nat (Suc k)"
    by simp
  ultimately show ?case
    using step pool pool1 by (simp del: of_nat_Suc)
qed


lemma set_task_order_first:
  assumes ptrs: "pred \<noteq> nullptr" "succ \<noteq> nullptr"
    and sp: "states h pred = Some sp" "m_successor_list_head sp \<noteq> COMPLETED_FLAG"
    and ss: "states h succ = Some ss" "m_continuation_vertex ss = nullptr"
    and pool: "free_list h = a # b # rest" "a \<noteq> nullptr" "b \<noteq> nullptr" "b \<noteq> COMPLETED_FLAG"
  shows "\<exists>h'. internal_set_task_order (Suc (Suc (Suc fuel))) pred succ h = Some (Inr h')
           \<and> edge_ready pred succ a 2 h' \<and> free_list h' = rest"
proof -
  let ?h1 = "h\<lparr>free_list := b # rest,
               vertices := (vertices h)(a \<mapsto> continuation_vertex_ctor (m_task ss)),
               states := (states h)(succ \<mapsto> ss\<lparr>m_continuation_vertex := a\<rparr>)\<rparr>"
  have gv: "get_continuation_vertex succ h = Inr (a, ?h1)"
    using get_continuation_vertex_fresh [OF ptrs(2) ss pool(1,2)] .
  obtain sp1 where sp1: "states ?h1 pred = Some sp1" "m_successor_list_head sp1 = m_successor_list_head sp"
    using sp ss by (cases "pred = succ") auto
  have v1: "vertices ?h1 a = Some (continuation_vertex_ctor (m_task ss))"
    by simp
  have pool1: "free_list ?h1 = b # rest"
    by simp
  have "internal_set_task_order (Suc (Suc (Suc fuel))) pred succ h =
      add_successor (Suc (Suc (Suc fuel))) pred a ?h1"
    using ptrs gv by (simp add: internal_set_task_order_def TBB_ASSERT_def del: add_successor.simps)
  also note add_successor_alive [OF ptrs(1) sp1(1) _ pool(2) v1 pool1 pool(3)]
  finally have run: "internal_set_task_order (Suc (Suc (Suc fuel))) pred succ h =
      Some (Inr (?h1\<lparr>vertices := (vertices ?h1)
                      (a \<mapsto> (continuation_vertex_ctor (m_task ss))
                             \<lparr>m_ref_count := m_ref_count (continuation_vertex_ctor (m_task ss)) + 1\<rparr>),
                   free_list := rest,
                   nodes := (nodes ?h1)
                     (b \<mapsto> \<lparr>m_next_successor = m_successor_list_head sp1,
                            node_continuation_vertex = a\<rparr>),
                   states := (states ?h1)(pred \<mapsto> sp1\<lparr>m_successor_list_head := b\<rparr>)\<rparr>))"
    (is "_ = Some (Inr ?h')")
    using sp sp1 by simp
  have "m_continuation_vertex sp1 = a" if "pred = succ"
    using that sp1 by auto
  then have "edge_ready pred succ a 2 ?h'"
    using ptrs pool by (simp add: edge_ready_def continuation_vertex_ctor_def)
  with run show ?thesis
    by simp
qed

lemma pool_length_bound:
  assumes "distinct (xs :: ptr list)" and "nullptr \<notin> set xs" and "COMPLETED_FLAG \<notin> set xs"
  shows "length xs + 2 \<le> 2 ^ 64"
proof -
  have ne: "nullptr \<noteq> COMPLETED_FLAG"
    by (simp add: nullptr_def COMPLETED_FLAG_def)
  have "set xs \<inter> {nullptr, COMPLETED_FLAG} = {}"
    using assms by auto
  then have "card (set xs \<union> {nullptr, COMPLETED_FLAG}) = card (set xs) + card {nullptr, COMPLETED_FLAG}"
    by (intro card_Un_disjoint) simp_all
  moreover have "card (set xs \<union> {nullptr, COMPLETED_FLAG}) \<le> card (UNIV :: ptr set)"
    by (intro card_mono) simp_all
  moreover have "card (set xs) = length xs"
    using assms(1) by (rule distinct_card)
  moreover have "card {nullptr, COMPLETED_FLAG} = 2"
    using ne by simp
  ultimately show ?thesis
    by (simp add: card_word)
qed

lemma unat_add_of_nat:
  assumes "unat (c :: 64 word) + k < 2 ^ 64"
  shows "unat (c + of_nat k) = unat c + k"
proof -
  have "k < 2 ^ 64"
    using assms by simp
  then have k: "unat (of_nat k :: 64 word) = k"
    by (simp add: unat_of_nat)
  then have "unat c + unat (of_nat k :: 64 word) < 2 ^ LENGTH(64)"
    using assms by simp
  then have "unat (c + of_nat k) = unat c + unat (of_nat k :: 64 word)"
    by (simp only: unat_add_lem)
  then show ?thesis
    by (simp add: k)
qed

text \<open>
  C5. While the head of the state of \<open>A\<close> is alive, adding \<open>k\<close> edges from \<open>A\<close> to \<open>B\<close>
  adds exactly \<open>k\<close> to the count of the continuation vertex of \<open>B\<close>: for a vertex that
  exists with count \<open>c\<close> the count becomes \<open>c + k\<close>; when \<open>B\<close> has no vertex yet, the
  first edge creates it with the count 1 of the handle's reservation and the count
  after the \<open>k\<close> edges is \<open>1 + k\<close>. The allocator serves the nodes (and the vertex) from
  its pool, which holds neither the null pointer nor the sentinel.
\<close>

theorem k_edges_add_k_references:
  assumes ptrs: "pred \<noteq> nullptr" "succ \<noteq> nullptr"
    and sp: "states h pred = Some sp" "m_successor_list_head sp \<noteq> COMPLETED_FLAG"
    and ss: "states h succ = Some ss"
    and pool: "distinct (free_list h)" "nullptr \<notin> set (free_list h)"
      "COMPLETED_FLAG \<notin> set (free_list h)"
  shows "(\<forall>v. m_continuation_vertex ss \<noteq> nullptr
             \<and> vertices h (m_continuation_vertex ss) = Some v \<and> k \<le> length (free_list h) \<longrightarrow>
           (\<exists>h'. set_task_order_times k (Suc (Suc (Suc fuel))) pred succ h = Some (Inr h')
              \<and> edge_ready pred succ (m_continuation_vertex ss) (m_ref_count v + of_nat k) h'
              \<and> (unat (m_ref_count v) + k < 2 ^ 64 \<longrightarrow>
                   map_option (\<lambda>v'. unat (m_ref_count v')) (vertices h' (m_continuation_vertex ss))
                     = Some (unat (m_ref_count v) + k))))
       \<and> (m_continuation_vertex ss = nullptr \<and> 0 < k \<and> k < length (free_list h) \<longrightarrow>
           (\<exists>h'. set_task_order_times k (Suc (Suc (Suc fuel))) pred succ h = Some (Inr h')
              \<and> edge_ready pred succ (hd (free_list h)) (1 + of_nat k) h'
              \<and> map_option (\<lambda>v'. unat (m_ref_count v')) (vertices h' (hd (free_list h)))
                   = Some (1 + k)))"
proof (intro conjI allI impI)
  fix v
  assume a: "m_continuation_vertex ss \<noteq> nullptr
             \<and> vertices h (m_continuation_vertex ss) = Some v \<and> k \<le> length (free_list h)"
  let ?V = "m_continuation_vertex ss"
  have "edge_ready pred succ ?V (m_ref_count v) h"
    using ptrs sp ss a by (simp add: edge_ready_def)
  from set_task_order_times_ready [OF this _ pool(2,3), of k fuel] a
  obtain h' where run: "set_task_order_times k (Suc (Suc (Suc fuel))) pred succ h = Some (Inr h')"
    and ready: "edge_ready pred succ ?V (m_ref_count v + of_nat k) h'"
    by blast
  have "map_option (\<lambda>v'. unat (m_ref_count v')) (vertices h' ?V) = Some (unat (m_ref_count v) + k)"
    if "unat (m_ref_count v) + k < 2 ^ 64"
    using ready unat_add_of_nat [OF that] by (auto simp: edge_ready_def split: option.splits)
  with run ready
  show "\<exists>h'. set_task_order_times k (Suc (Suc (Suc fuel))) pred succ h = Some (Inr h')
              \<and> edge_ready pred succ ?V (m_ref_count v + of_nat k) h'
              \<and> (unat (m_ref_count v) + k < 2 ^ 64 \<longrightarrow>
                   map_option (\<lambda>v'. unat (m_ref_count v')) (vertices h' ?V)
                     = Some (unat (m_ref_count v) + k))"
    by blast
next
  assume a: "m_continuation_vertex ss = nullptr \<and> 0 < k \<and> k < length (free_list h)"
  then obtain k' where k: "k = Suc k'"
    by (cases k) auto
  from a obtain x y rest where fl: "free_list h = x # y # rest"
    by (cases "free_list h"; cases "tl (free_list h)") (auto simp: k)
  have xy: "x \<noteq> nullptr" "y \<noteq> nullptr" "y \<noteq> COMPLETED_FLAG"
    using pool fl by auto
  from set_task_order_first [OF ptrs sp ss _ fl xy, of fuel] a
  obtain h1 where first: "internal_set_task_order (Suc (Suc (Suc fuel))) pred succ h = Some (Inr h1)"
    and ready1: "edge_ready pred succ x 2 h1" and fl1: "free_list h1 = rest"
    by blast
  have "k' \<le> length (free_list h1)" "nullptr \<notin> set (free_list h1)"
    "COMPLETED_FLAG \<notin> set (free_list h1)"
    using a pool fl fl1 k by auto
  from set_task_order_times_ready [OF ready1 this, of fuel]
  obtain h' where rest: "set_task_order_times k' (Suc (Suc (Suc fuel))) pred succ h1 = Some (Inr h')"
    and ready: "edge_ready pred succ x (2 + of_nat k') h'"
    by blast
  have run: "set_task_order_times k (Suc (Suc (Suc fuel))) pred succ h = Some (Inr h')"
    using first rest by (simp add: k del: internal_set_task_order_def)
  have count: "(2 :: 64 word) + of_nat k' = 1 + of_nat k"
    by (simp add: k)
  have "length (free_list h) + 2 \<le> 2 ^ 64"
    using pool by (rule pool_length_bound)
  then have "unat (1 :: 64 word) + k < 2 ^ 64"
    using a by simp
  then have "unat ((1 :: 64 word) + of_nat k) = 1 + k"
    using unat_add_of_nat [of 1 k] by simp
  then have "map_option (\<lambda>v'. unat (m_ref_count v')) (vertices h' x) = Some (1 + k)"
    using ready count by (auto simp: edge_ready_def split: option.splits)
  then show "\<exists>h'. set_task_order_times k (Suc (Suc (Suc fuel))) pred succ h = Some (Inr h')
              \<and> edge_ready pred succ (hd (free_list h)) (1 + of_nat k) h'
              \<and> map_option (\<lambda>v'. unat (m_ref_count v')) (vertices h' (hd (free_list h)))
                   = Some (1 + k)"
    using run ready count fl by auto
qed


theorem k_edges_add_k_references_witness:
  "(case set_task_order_times 2 (Suc (Suc (Suc 0))) 0x200 0x210 example_heap of
      Some (Inr h') \<Rightarrow> map_option m_ref_count (vertices h' 0x300)
    | _ \<Rightarrow> None) = Some 4
   \<and> (case set_task_order_times 2 (Suc (Suc (Suc 0))) 0x210 0x200 example_heap of
      Some (Inr h') \<Rightarrow> map_option m_ref_count (vertices h' 0x500)
    | _ \<Rightarrow> None) = Some 3"
proof
  let ?sp = "\<lparr>m_task = 0x100, m_successor_list_head = 0x400, m_continuation_vertex = 0,
              m_new_dynamic_state = 0, m_num_references = 1\<rparr>"
  let ?ss = "\<lparr>m_task = 0x110, m_successor_list_head = 0, m_continuation_vertex = 0x300,
              m_new_dynamic_state = 0, m_num_references = 1\<rparr>"
  let ?v = "\<lparr>m_ref_count = 2, vertex_task = 0x110\<rparr>"
  have pool: "distinct (free_list example_heap)" "nullptr \<notin> set (free_list example_heap)"
    "COMPLETED_FLAG \<notin> set (free_list example_heap)"
    by (simp_all add: example_heap_def nullptr_def COMPLETED_FLAG_def)
  have a: "0x200 \<noteq> nullptr" "0x210 \<noteq> nullptr" "states example_heap 0x200 = Some ?sp"
    "m_successor_list_head ?sp \<noteq> COMPLETED_FLAG" "states example_heap 0x210 = Some ?ss"
    by (simp_all add: example_heap_def nullptr_def COMPLETED_FLAG_def)
  have b: "m_continuation_vertex ?ss \<noteq> nullptr
      \<and> vertices example_heap (m_continuation_vertex ?ss) = Some ?v
      \<and> 2 \<le> length (free_list example_heap)"
    by (simp add: example_heap_def nullptr_def)
  from k_edges_add_k_references [OF a pool, THEN conjunct1, rule_format, OF b, of 0]
  obtain h' where "set_task_order_times 2 (Suc (Suc (Suc 0))) 0x200 0x210 example_heap = Some (Inr h')"
    and "edge_ready 0x200 0x210 0x300 (2 + of_nat 2) h'"
    by auto
  then show "(case set_task_order_times 2 (Suc (Suc (Suc 0))) 0x200 0x210 example_heap of
      Some (Inr h') \<Rightarrow> map_option m_ref_count (vertices h' 0x300)
    | _ \<Rightarrow> None) = Some 4"
    by (auto simp: edge_ready_def split: option.splits)
  have a': "0x210 \<noteq> nullptr" "0x200 \<noteq> nullptr" "states example_heap 0x210 = Some ?ss"
    "m_successor_list_head ?ss \<noteq> COMPLETED_FLAG" "states example_heap 0x200 = Some ?sp"
    by (simp_all add: example_heap_def nullptr_def COMPLETED_FLAG_def)
  have b': "m_continuation_vertex ?sp = nullptr \<and> 0 < (2 :: nat)
      \<and> 2 < length (free_list example_heap)"
    by (simp add: example_heap_def nullptr_def)
  from k_edges_add_k_references [OF a' pool, THEN conjunct2, rule_format, OF b', of 0]
  obtain h' where "set_task_order_times 2 (Suc (Suc (Suc 0))) 0x210 0x200 example_heap = Some (Inr h')"
    and "edge_ready 0x210 0x200 (hd (free_list example_heap)) (1 + of_nat 2) h'"
    by auto
  then show "(case set_task_order_times 2 (Suc (Suc (Suc 0))) 0x210 0x200 example_heap of
      Some (Inr h') \<Rightarrow> map_option m_ref_count (vertices h' 0x500)
    | _ \<Rightarrow> None) = Some 3"
    by (auto simp: edge_ready_def example_heap_def split: option.splits)
qed


section \<open>Transfer of the successors\<close>

text \<open>\<open>lseg ns p xs q\<close>: following \<open>m_next_successor\<close> from \<open>p\<close> visits exactly the nodes
  \<open>xs\<close> and arrives at \<open>q\<close>.\<close>

fun lseg :: "(ptr \<rightharpoonup> successor_list_node) \<Rightarrow> ptr \<Rightarrow> ptr list \<Rightarrow> ptr \<Rightarrow> bool" where
  "lseg ns p [] q \<longleftrightarrow> p = q"
| "lseg ns p (x # xs) q \<longleftrightarrow>
     p = x \<and> x \<noteq> nullptr \<and>
     (case ns x of None \<Rightarrow> False | Some n \<Rightarrow> lseg ns (m_next_successor n) xs q)"

lemma lseg_Cons:
  "lseg ns p (x # xs) q \<longleftrightarrow>
     p = x \<and> x \<noteq> nullptr \<and> (\<exists>n. ns x = Some n \<and> lseg ns (m_next_successor n) xs q)"
  by (auto split: option.splits)

lemma is_list_lseg: "is_list ns p xs \<longleftrightarrow> lseg ns p xs nullptr"
  by (induction xs arbitrary: p) (auto split: option.splits)

lemma lseg_append_is_list:
  "lseg ns p xs q \<Longrightarrow> is_list ns q ys \<Longrightarrow> is_list ns p (xs @ ys)"
proof (induction xs arbitrary: p)
  case Nil
  then show ?case by simp
next
  case (Cons x xs)
  then show ?case
    unfolding lseg_Cons append_Cons is_list_Cons by blast
qed

lemma is_list_allocated: "is_list ns p xs \<Longrightarrow> x \<in> set xs \<Longrightarrow> \<exists>n. ns x = Some n"
proof (induction xs arbitrary: p)
  case Nil
  then show ?case by simp
next
  case (Cons y ys)
  then show ?case
    unfolding is_list_Cons by auto
qed

lemma find_last_node_is_list:
  assumes "is_list (nodes h) p xs" and "xs \<noteq> []" and "length xs \<le> fuel"
  shows "find_last_node fuel p h = Some (Inr (last xs))"
  using assms
proof (induction xs arbitrary: p fuel)
  case Nil
  then show ?case by simp
next
  case (Cons x xs)
  from Cons.prems obtain n where p: "p = x" "x \<noteq> nullptr" and n: "nodes h x = Some n"
    and rest: "is_list (nodes h) (m_next_successor n) xs"
    unfolding is_list_Cons by blast
  from Cons.prems obtain fuel' where fuel: "fuel = Suc fuel'" "length xs \<le> fuel'"
    by (cases fuel) auto
  show ?case
  proof (cases xs)
    case Nil
    then show ?thesis
      using p n rest fuel by (simp add: get_next_node_def deref_nonnull)
  next
    case (Cons y ys)
    then have "m_next_successor n \<noteq> nullptr"
      using rest by auto
    moreover have "find_last_node fuel' (m_next_successor n) h = Some (Inr (last xs))"
      using Cons rest fuel by (intro Cons.IH) simp_all
    ultimately show ?thesis
      using p n fuel Cons by (simp add: get_next_node_def deref_nonnull)
  qed
qed

lemma lseg_redirect_last:
  assumes "is_list ns p xs" and "xs \<noteq> []" and "ns (last xs) = Some n"
  shows "lseg (ns(last xs \<mapsto> n\<lparr>m_next_successor := q\<rparr>)) p xs q"
  using assms
proof (induction xs arbitrary: p)
  case Nil
  then show ?case by simp
next
  case (Cons x xs)
  from Cons.prems obtain nx where p: "p = x" "x \<noteq> nullptr" and nx: "ns x = Some nx"
    and rest: "is_list ns (m_next_successor nx) xs"
    unfolding is_list_Cons by blast
  show ?case
  proof (cases "xs = []")
    case True
    then show ?thesis
      using p nx Cons.prems by simp
  next
    case False
    then have last: "last (x # xs) = last xs"
      by simp
    have "x \<notin> set xs"
      using Cons.prems(1) by (rule is_list_head_notin_tail)
    then have ne: "x \<noteq> last xs"
      using False last_in_set by metis
    have tail: "lseg (ns(last xs \<mapsto> n\<lparr>m_next_successor := q\<rparr>)) (m_next_successor nx) xs q"
      using False rest Cons.prems(3) last by (intro Cons.IH) simp_all
    have "(ns(last xs \<mapsto> n\<lparr>m_next_successor := q\<rparr>)) x = Some nx"
      using ne nx by simp
    with tail p show ?thesis
      unfolding last lseg_Cons by blast
  qed
qed

lemma add_successor_list_loop_first:
  assumes "this \<noteq> nullptr" and "states h this = Some s"
    and "m_successor_list_head s = current"
  shows "add_successor_list_loop this current successor_list last_node h =
           Inr (h\<lparr>states := (states h)(this \<mapsto> s\<lparr>m_successor_list_head := successor_list\<rparr>)\<rparr>)"
  using assms
  by (simp add: add_successor_list_loop.simps [of this current] cas_successor_list_head_def
      deref_nonnull)

lemma add_successor_list_splice:
  assumes "this \<noteq> nullptr" and "states h this = Some s"
    and "is_list (nodes h) successor_list xs" and "xs \<noteq> []" and "length xs \<le> fuel"
    and "nodes h (last xs) = Some n"
  shows "add_successor_list fuel this successor_list h =
           Some (Inr (h\<lparr>nodes := (nodes h)
                          (last xs \<mapsto> n\<lparr>m_next_successor := m_successor_list_head s\<rparr>),
                        states := (states h)(this \<mapsto> s\<lparr>m_successor_list_head := successor_list\<rparr>)\<rparr>))"
proof -
  have "last xs \<in> set xs"
    using assms(4) by simp
  then have last: "last xs \<noteq> nullptr"
    using is_list_nonnull [OF assms(3)] by metis
  obtain x xs' where "xs = x # xs'"
    using assms(4) by (cases xs) auto
  then have head: "successor_list \<noteq> nullptr"
    using assms(3) by simp
  note nonnull = head last
  have "find_last_node fuel successor_list h = Some (Inr (last xs))"
    using assms by (intro find_last_node_is_list)
  then show ?thesis
    using assms nonnull
    by (simp add: add_successor_list_def deref_nonnull set_next_node_def
        add_successor_list_loop_first)
qed


text \<open>The reservation of the replacement state is the first step: when the replacement
  state is not a live state the call fails there, whatever the state \<open>this\<close> is.\<close>

lemma transfer_successors_to_reserves_first:
  assumes "new_dynamic_state \<noteq> nullptr" and "states h new_dynamic_state = None"
  shows "transfer_successors_to fuel this new_dynamic_state h
           = Some (Inl (Invalid_access new_dynamic_state))"
  using assms by (simp add: transfer_successors_to_def TBB_ASSERT_def reserve_def deref_def)

text \<open>
  C1. For a dynamic state \<open>S\<close> with the well-formed successor list \<open>xs\<close> and a
  replacement state \<open>S'\<close> that is not null (and is another state than \<open>S\<close>),
  \<open>transfer_successors_to\<close> (with fuel for the walk along the list) returns, and it is
  these steps in this order: it first reserves \<open>S'\<close> (heap \<open>h1\<close>, where only the count
  of \<open>S'\<close> has changed); then stores \<open>S'\<close> as the forwarding state of \<open>S\<close>; then
  exchanges the head of \<open>S\<close> with \<open>COMPLETED_FLAG\<close>, which returns the old head as the
  claimed list and seals \<open>S\<close> in the same step (heap \<open>h3\<close>); and splices the claimed
  list into \<open>S'\<close>, which gives the heap \<open>h'\<close> that the call returns. There the head of
  \<open>S\<close> is \<open>COMPLETED_FLAG\<close> and the old head of \<open>S\<close> is the head of \<open>S'\<close>: from it the
  nodes \<open>xs\<close> are visited in their order, each with its vertex, and the walk continues at
  the old head of \<open>S'\<close>. Only the next pointer of the last node of \<open>xs\<close> has changed in
  the node store.
\<close>

theorem transfer_successors_to_moves_the_list:
  assumes ptrs: "this \<noteq> nullptr" "new_dynamic_state \<noteq> nullptr" "this \<noteq> new_dynamic_state"
    and s: "states h this = Some s" and s': "states h new_dynamic_state = Some s'"
    and list: "is_list (nodes h) (m_successor_list_head s) xs" and fuel: "length xs \<le> fuel"
  shows "\<exists>h1 h3 h'.
           reserve new_dynamic_state h = Inr h1
           \<and> states h1 = (states h)
                (new_dynamic_state \<mapsto> s'\<lparr>m_num_references := m_num_references s' + 1\<rparr>)
           \<and> fetch_successor_list this COMPLETED_FLAG
                (h1\<lparr>states := (states h1)
                      (this \<mapsto> s\<lparr>m_new_dynamic_state := new_dynamic_state\<rparr>)\<rparr>)
               = Inr (m_successor_list_head s, h3)
           \<and> states h3 = (states h)
                (new_dynamic_state \<mapsto> s'\<lparr>m_num_references := m_num_references s' + 1\<rparr>,
                 this \<mapsto> s\<lparr>m_new_dynamic_state := new_dynamic_state,
                             m_successor_list_head := COMPLETED_FLAG\<rparr>)
           \<and> add_successor_list fuel new_dynamic_state (m_successor_list_head s) h3
               = Some (Inr h')
           \<and> transfer_successors_to fuel this new_dynamic_state h = Some (Inr h')
           \<and> states h' = (states h)
                (this \<mapsto> s\<lparr>m_new_dynamic_state := new_dynamic_state,
                             m_successor_list_head := COMPLETED_FLAG\<rparr>,
                 new_dynamic_state \<mapsto>
                   s'\<lparr>m_num_references := m_num_references s' + 1,
                      m_successor_list_head :=
                        (if xs = [] then m_successor_list_head s' else m_successor_list_head s)\<rparr>)
           \<and> lseg (nodes h')
                (if xs = [] then m_successor_list_head s' else m_successor_list_head s)
                xs (m_successor_list_head s')
           \<and> (\<forall>x. xs = [] \<or> x \<noteq> last xs \<longrightarrow> nodes h' x = nodes h x)
           \<and> (\<forall>x \<in> set xs. map_option node_continuation_vertex (nodes h' x)
                              = map_option node_continuation_vertex (nodes h x))
           \<and> (\<forall>ys. is_list (nodes h) (m_successor_list_head s') ys \<and> set xs \<inter> set ys = {} \<longrightarrow>
                 is_list (nodes h')
                   (if xs = [] then m_successor_list_head s' else m_successor_list_head s)
                   (xs @ ys))
           \<and> vertices h' = vertices h \<and> tasks h' = tasks h
           \<and> spawned h' = spawned h \<and> free_list h' = free_list h"
proof -
  let ?sealed = "s\<lparr>m_new_dynamic_state := new_dynamic_state,
                    m_successor_list_head := COMPLETED_FLAG\<rparr>"
  let ?reserved = "s'\<lparr>m_num_references := m_num_references s' + 1\<rparr>"
  let ?h3 = "h\<lparr>states := (states h)(new_dynamic_state \<mapsto> ?reserved, this \<mapsto> ?sealed)\<rparr>"
  have start: "transfer_successors_to fuel this new_dynamic_state h =
      add_successor_list fuel new_dynamic_state (m_successor_list_head s) ?h3"
    using ptrs s s'
    by (simp add: transfer_successors_to_def TBB_ASSERT_def reserve_def deref_nonnull
        fetch_successor_list_def Let_def)
  let ?h1 = "h\<lparr>states := (states h)(new_dynamic_state \<mapsto> ?reserved)\<rparr>"
  have first: "reserve new_dynamic_state h = Inr ?h1"
    using ptrs s' by (simp add: reserve_def deref_nonnull)
  have sealed: "fetch_successor_list this COMPLETED_FLAG
      (?h1\<lparr>states := (states ?h1)(this \<mapsto> s\<lparr>m_new_dynamic_state := new_dynamic_state\<rparr>)\<rparr>)
      = Inr (m_successor_list_head s, ?h3)"
    using ptrs by (simp add: fetch_successor_list_def deref_nonnull)
  have steps: "states ?h1 = (states h)(new_dynamic_state \<mapsto> ?reserved)"
    "states ?h3 = (states h)(new_dynamic_state \<mapsto> ?reserved, this \<mapsto> ?sealed)"
    by simp_all
  have moved: "\<exists>h'. transfer_successors_to fuel this new_dynamic_state h = Some (Inr h')
             \<and> states h' = (states h)
                  (this \<mapsto> s\<lparr>m_new_dynamic_state := new_dynamic_state,
                               m_successor_list_head := COMPLETED_FLAG\<rparr>,
                   new_dynamic_state \<mapsto>
                     s'\<lparr>m_num_references := m_num_references s' + 1,
                        m_successor_list_head :=
                          (if xs = [] then m_successor_list_head s' else m_successor_list_head s)\<rparr>)
             \<and> lseg (nodes h')
                  (if xs = [] then m_successor_list_head s' else m_successor_list_head s)
                  xs (m_successor_list_head s')
             \<and> (\<forall>x. xs = [] \<or> x \<noteq> last xs \<longrightarrow> nodes h' x = nodes h x)
             \<and> (\<forall>x \<in> set xs. map_option node_continuation_vertex (nodes h' x)
                                = map_option node_continuation_vertex (nodes h x))
             \<and> (\<forall>ys. is_list (nodes h) (m_successor_list_head s') ys \<and> set xs \<inter> set ys = {} \<longrightarrow>
                   is_list (nodes h')
                     (if xs = [] then m_successor_list_head s' else m_successor_list_head s)
                     (xs @ ys))
             \<and> vertices h' = vertices h \<and> tasks h' = tasks h
             \<and> spawned h' = spawned h \<and> free_list h' = free_list h"
  proof (cases "xs = []")
    case True
    then have "m_successor_list_head s = nullptr"
      using list by simp
    then have run: "transfer_successors_to fuel this new_dynamic_state h = Some (Inr ?h3)"
      using start by (simp add: add_successor_list_def)
    have "states ?h3 = (states h)(this \<mapsto> ?sealed, new_dynamic_state \<mapsto> ?reserved)"
      using ptrs by (auto simp: fun_eq_iff)
    then show ?thesis
      using run True by auto
  next
    case False
    then have "last xs \<in> set xs"
      by simp
    then obtain n where n: "nodes h (last xs) = Some n"
      using is_list_allocated [OF list] by blast
    let ?nodes = "(nodes h)(last xs \<mapsto> n\<lparr>m_next_successor := m_successor_list_head s'\<rparr>)"
    let ?h' = "?h3\<lparr>nodes := ?nodes,
                    states := (states ?h3)
                      (new_dynamic_state \<mapsto> ?reserved\<lparr>m_successor_list_head := m_successor_list_head s\<rparr>)\<rparr>"
    have "add_successor_list fuel new_dynamic_state (m_successor_list_head s) ?h3 = Some (Inr ?h')"
      using ptrs list False fuel n
      by (subst add_successor_list_splice [where s = ?reserved and xs = xs and n = n]) simp_all
    then have run: "transfer_successors_to fuel this new_dynamic_state h = Some (Inr ?h')"
      using start by simp
    have st: "states ?h' = (states h)
        (this \<mapsto> ?sealed,
         new_dynamic_state \<mapsto>
           s'\<lparr>m_num_references := m_num_references s' + 1,
              m_successor_list_head := m_successor_list_head s\<rparr>)"
      using ptrs by (auto simp: fun_eq_iff)
    have seg: "lseg ?nodes (m_successor_list_head s) xs (m_successor_list_head s')"
      using list False n by (rule lseg_redirect_last)
    have vertex: "\<forall>x \<in> set xs. map_option node_continuation_vertex (?nodes x)
        = map_option node_continuation_vertex (nodes h x)"
      using n by simp
    have whole: "is_list ?nodes (m_successor_list_head s) (xs @ ys)"
      if "is_list (nodes h) (m_successor_list_head s') ys" "set xs \<inter> set ys = {}" for ys
    proof -
      have "last xs \<notin> set ys"
        using that(2) False last_in_set by blast
      then have "is_list ?nodes (m_successor_list_head s') ys"
        using that(1) by (intro is_list_frame [OF that(1)]) auto
      with seg show ?thesis
        by (rule lseg_append_is_list)
    qed
    show ?thesis
      using run st seg vertex whole False
      by (intro exI [of _ ?h']) (simp del: fun_upd_apply, simp)
  qed
  from moved obtain h' where run: "transfer_successors_to fuel this new_dynamic_state h = Some (Inr h')"
    and rest: "states h' = (states h)
                (this \<mapsto> s\<lparr>m_new_dynamic_state := new_dynamic_state,
                             m_successor_list_head := COMPLETED_FLAG\<rparr>,
                 new_dynamic_state \<mapsto>
                   s'\<lparr>m_num_references := m_num_references s' + 1,
                      m_successor_list_head :=
                        (if xs = [] then m_successor_list_head s' else m_successor_list_head s)\<rparr>)
           \<and> lseg (nodes h')
                (if xs = [] then m_successor_list_head s' else m_successor_list_head s)
                xs (m_successor_list_head s')
           \<and> (\<forall>x. xs = [] \<or> x \<noteq> last xs \<longrightarrow> nodes h' x = nodes h x)
           \<and> (\<forall>x \<in> set xs. map_option node_continuation_vertex (nodes h' x)
                              = map_option node_continuation_vertex (nodes h x))
           \<and> (\<forall>ys. is_list (nodes h) (m_successor_list_head s') ys \<and> set xs \<inter> set ys = {} \<longrightarrow>
                 is_list (nodes h')
                   (if xs = [] then m_successor_list_head s' else m_successor_list_head s)
                   (xs @ ys))
           \<and> vertices h' = vertices h \<and> tasks h' = tasks h
           \<and> spawned h' = spawned h \<and> free_list h' = free_list h"
    by blast
  have splice: "add_successor_list fuel new_dynamic_state (m_successor_list_head s) ?h3
      = Some (Inr h')"
    using start run by simp
  from first steps(1) sealed steps(2) splice run rest show ?thesis
    by blast
qed


theorem transfer_successors_to_moves_the_list_witness:
  "(case transfer_successors_to (Suc 0) 0x200 0x210 example_heap of
      Some (Inr h') \<Rightarrow> Some (states h' 0x200, states h' 0x210)
    | _ \<Rightarrow> None)
   = Some (Some \<lparr>m_task = 0x100, m_successor_list_head = COMPLETED_FLAG,
                  m_continuation_vertex = 0, m_new_dynamic_state = 0x210,
                  m_num_references = 1\<rparr>,
           Some \<lparr>m_task = 0x110, m_successor_list_head = 0x400,
                  m_continuation_vertex = 0x300, m_new_dynamic_state = 0,
                  m_num_references = 2\<rparr>)"
proof -
  let ?s = "\<lparr>m_task = 0x100, m_successor_list_head = 0x400, m_continuation_vertex = 0,
             m_new_dynamic_state = 0, m_num_references = 1\<rparr>"
  let ?s' = "\<lparr>m_task = 0x110, m_successor_list_head = 0, m_continuation_vertex = 0x300,
              m_new_dynamic_state = 0, m_num_references = 1\<rparr>"
  have a: "0x200 \<noteq> nullptr" "0x210 \<noteq> nullptr" "(0x200 :: ptr) \<noteq> 0x210"
    "states example_heap 0x200 = Some ?s" "states example_heap 0x210 = Some ?s'"
    "is_list (nodes example_heap) (m_successor_list_head ?s) [0x400]"
    "length [0x400 :: ptr] \<le> Suc 0"
    by (simp_all add: example_heap_def nullptr_def)
  from transfer_successors_to_moves_the_list [OF a]
  obtain h' where "transfer_successors_to (Suc 0) 0x200 0x210 example_heap = Some (Inr h')"
    and "states h' = (states example_heap)
          (0x200 \<mapsto> ?s\<lparr>m_new_dynamic_state := 0x210, m_successor_list_head := COMPLETED_FLAG\<rparr>,
           0x210 \<mapsto> ?s'\<lparr>m_num_references := m_num_references ?s' + 1,
                        m_successor_list_head := m_successor_list_head ?s\<rparr>)"
    by auto
  then show ?thesis
    by simp
qed

text \<open>The replacement state is another state than the state itself. A transfer of a
  state to itself is not sealed: the splice stores the list back into the head, over
  the sentinel.\<close>

lemma transfer_successors_to_itself:
  "(case transfer_successors_to (Suc 0) 0x200 0x200 example_heap of
      Some (Inr h') \<Rightarrow> map_option m_successor_list_head (states h' 0x200)
    | _ \<Rightarrow> None) = Some 0x400
   \<and> (0x400 :: ptr) \<noteq> COMPLETED_FLAG"
  by (simp add: transfer_successors_to_def TBB_ASSERT_def reserve_def deref_def
      fetch_successor_list_def add_successor_list_def get_next_node_def set_next_node_def
      add_successor_list_loop.simps cas_successor_list_head_def example_heap_def
      nullptr_def COMPLETED_FLAG_def Let_def)


section \<open>Single spawn: the invariant\<close>

text \<open>\<open>node_count ns V\<close>: the number of successor nodes in the store \<open>ns\<close> that hold a
  reservation of the continuation vertex \<open>V\<close>.\<close>

definition node_count :: "(ptr \<rightharpoonup> successor_list_node) \<Rightarrow> ptr \<Rightarrow> nat" where
  "node_count ns V = card {n. \<exists>nd. ns n = Some nd \<and> node_continuation_vertex nd = V}"

lemma node_count_remove:
  assumes "ns n = Some nd"
  shows "node_count (ns(n := None)) V =
           node_count ns V - (if node_continuation_vertex nd = V then 1 else 0)"
proof -
  let ?A = "{m. \<exists>md. ns m = Some md \<and> node_continuation_vertex md = V}"
  have "{m. \<exists>md. (ns(n := None)) m = Some md \<and> node_continuation_vertex md = V} = ?A - {n}"
    by auto
  moreover have "n \<in> ?A \<longleftrightarrow> node_continuation_vertex nd = V"
    using assms by auto
  moreover have "finite ?A"
    by simp
  ultimately show ?thesis
    by (simp add: node_count_def)
qed

lemma node_count_add:
  assumes "ns a = None"
  shows "node_count (ns(a \<mapsto> nd)) V =
           node_count ns V + (if node_continuation_vertex nd = V then 1 else 0)"
proof -
  let ?A = "{m. \<exists>md. ns m = Some md \<and> node_continuation_vertex md = V}"
  have a: "a \<notin> ?A"
    using assms by auto
  have fin: "finite ?A"
    by simp
  show ?thesis
  proof (cases "node_continuation_vertex nd = V")
    case True
    then have "{m. \<exists>md. (ns(a \<mapsto> nd)) m = Some md \<and> node_continuation_vertex md = V} = insert a ?A"
      by auto
    then show ?thesis
      using a fin True by (simp add: node_count_def)
  next
    case False
    then have "{m. \<exists>md. (ns(a \<mapsto> nd)) m = Some md \<and> node_continuation_vertex md = V} = ?A"
      using assms by auto
    then show ?thesis
      using False by (simp add: node_count_def)
  qed
qed

lemma node_count_update:
  assumes "ns n = Some nd" and "node_continuation_vertex nd' = node_continuation_vertex nd"
  shows "node_count (ns(n \<mapsto> nd')) V = node_count ns V"
proof -
  have "{m. \<exists>md. (ns(n \<mapsto> nd')) m = Some md \<and> node_continuation_vertex md = V}
      = {m. \<exists>md. ns m = Some md \<and> node_continuation_vertex md = V}"
    using assms by auto
  then show ?thesis
    by (simp add: node_count_def)
qed

lemma node_count_pos:
  assumes "ns n = Some nd"
  shows "1 \<le> node_count ns (node_continuation_vertex nd)"
proof -
  let ?A = "{m. \<exists>md. ns m = Some md \<and> node_continuation_vertex md = node_continuation_vertex nd}"
  have "n \<in> ?A"
    using assms by blast
  then have "?A \<noteq> {}"
    by blast
  moreover have "finite ?A"
    by (rule finite)
  ultimately have "0 < card ?A"
    unfolding card_gt_0_iff by (rule conjI)
  then show ?thesis
    unfolding node_count_def by linarith
qed

lemma node_count_bound:
  assumes "ns nullptr = None" and "ns COMPLETED_FLAG = None" and "ns a = None"
    and "a \<noteq> nullptr" and "a \<noteq> COMPLETED_FLAG"
  shows "node_count ns V + 3 \<le> 2 ^ 64"
proof -
  let ?A = "{m. \<exists>md. ns m = Some md \<and> node_continuation_vertex md = V}"
  let ?B = "{nullptr, COMPLETED_FLAG, a}"
  have ne: "nullptr \<noteq> COMPLETED_FLAG"
    by (simp add: nullptr_def COMPLETED_FLAG_def)
  have "?A \<inter> ?B = {}"
    using assms by auto
  then have union: "card (?A \<union> ?B) = card ?A + card ?B"
    by (intro card_Un_disjoint) simp_all
  have le: "card (?A \<union> ?B) \<le> card (UNIV :: ptr set)"
    by (intro card_mono) simp_all
  have three: "card ?B = 3"
    using ne assms by simp
  have univ: "card (UNIV :: ptr set) = 2 ^ 64"
    by (simp add: card_word)
  have "card ?A + 3 \<le> 2 ^ 64"
    using union le three univ by linarith
  then show ?thesis
    unfolding node_count_def .
qed

text \<open>
  The invariant, for a set \<open>R\<close> of continuation vertices that still hold the
  reservation of their task handle, the set \<open>own\<close> of tasks still owned by a task
  handle, and the number \<open>rel T\<close> of times task \<open>T\<close> was spawned or returned for bypass:
  \<^item> \<open>pool_ok\<close>: the allocator hands out addresses that are not in use and not referred
    to, and no node lives at the null pointer or at the sentinel;
  \<^item> \<open>counts_ok\<close>: the count of a vertex is the number of nodes that refer to it, plus
    one while the reservation of the handle is held;
  \<^item> \<open>released_ok\<close>: no task was released twice, and none that a handle still owns; a
    vertex whose reservation is consumed belongs to a task that is submitted and not
    yet released, and it is the only such vertex of the task;
  \<^item> \<open>links_ok\<close>: the vertex of a dynamic state releases the task of the state, and
    the dynamic state of a task is a state of that task.
\<close>

definition pool_ok :: "heap \<Rightarrow> bool" where
  "pool_ok h \<longleftrightarrow>
     distinct (free_list h) \<and> nullptr \<notin> set (free_list h) \<and> COMPLETED_FLAG \<notin> set (free_list h)
     \<and> nodes h nullptr = None \<and> nodes h COMPLETED_FLAG = None
     \<and> (\<forall>a \<in> set (free_list h).
           nodes h a = None \<and> vertices h a = None
           \<and> (\<forall>n nd. nodes h n = Some nd \<longrightarrow> node_continuation_vertex nd \<noteq> a)
           \<and> (\<forall>S s. states h S = Some s \<longrightarrow> m_continuation_vertex s \<noteq> a)
           \<and> (\<forall>T t. tasks h T = Some t \<longrightarrow> m_dynamic_state t \<noteq> a))"

definition counts_ok :: "ptr set \<Rightarrow> heap \<Rightarrow> bool" where
  "counts_ok R h \<longleftrightarrow>
     (\<forall>V v. vertices h V = Some v \<longrightarrow>
        unat (m_ref_count v) = node_count (nodes h) V + (if V \<in> R then 1 else 0))"

definition released_ok :: "ptr set \<Rightarrow> ptr set \<Rightarrow> (ptr \<Rightarrow> nat) \<Rightarrow> heap \<Rightarrow> bool" where
  "released_ok R own rel h \<longleftrightarrow>
     (\<forall>T. rel T \<le> 1) \<and> (\<forall>T \<in> own. rel T = 0)
     \<and> (\<forall>V v. vertices h V = Some v \<and> V \<notin> R \<longrightarrow>
           vertex_task v \<notin> own \<and> rel (vertex_task v) = 0)
     \<and> (\<forall>V1 V2 v1 v2. vertices h V1 = Some v1 \<and> vertices h V2 = Some v2
           \<and> V1 \<notin> R \<and> V2 \<notin> R \<and> vertex_task v1 = vertex_task v2 \<longrightarrow> V1 = V2)"

definition links_ok :: "heap \<Rightarrow> bool" where
  "links_ok h \<longleftrightarrow>
     (\<forall>S s v. states h S = Some s \<and> m_continuation_vertex s \<noteq> nullptr
         \<and> vertices h (m_continuation_vertex s) = Some v \<longrightarrow> vertex_task v = m_task s)
     \<and> (\<forall>T t s. tasks h T = Some t \<and> m_dynamic_state t \<noteq> nullptr
         \<and> states h (m_dynamic_state t) = Some s \<longrightarrow> m_task s = T)"

definition graph_ok :: "ptr set \<Rightarrow> ptr set \<Rightarrow> (ptr \<Rightarrow> nat) \<Rightarrow> heap \<Rightarrow> bool" where
  "graph_ok R own rel h \<longleftrightarrow>
     pool_ok h \<and> counts_ok R h \<and> released_ok R own rel h \<and> links_ok h"


subsection \<open>What the invariant depends on\<close>

text \<open>The invariant reads the pool, the vertices, the tasks, the vertex of each node
  and the vertex and task of each dynamic state. It does not read the list structure,
  the forwarding pointers or the counts of the states.\<close>

definition same_graph :: "heap \<Rightarrow> heap \<Rightarrow> bool" where
  "same_graph h h' \<longleftrightarrow>
     free_list h' = free_list h \<and> vertices h' = vertices h \<and> tasks h' = tasks h
     \<and> (\<forall>n. map_option node_continuation_vertex (nodes h' n)
             = map_option node_continuation_vertex (nodes h n))
     \<and> (\<forall>S. map_option (\<lambda>s. (m_continuation_vertex s, m_task s)) (states h' S)
             = map_option (\<lambda>s. (m_continuation_vertex s, m_task s)) (states h S))"

lemma same_graph_refl: "same_graph h h"
  by (simp add: same_graph_def)

lemma same_graph_trans: "same_graph h h1 \<Longrightarrow> same_graph h1 h2 \<Longrightarrow> same_graph h h2"
  by (simp add: same_graph_def)

lemma same_graph_nodes:
  assumes "same_graph h h'"
  shows "(nodes h' n = None) = (nodes h n = None)"
    and "(\<exists>nd. nodes h' n = Some nd \<and> node_continuation_vertex nd = V)
       = (\<exists>nd. nodes h n = Some nd \<and> node_continuation_vertex nd = V)"
proof -
  have eq: "map_option node_continuation_vertex (nodes h' n)
      = map_option node_continuation_vertex (nodes h n)"
    using assms by (simp add: same_graph_def)
  show "(nodes h' n = None) = (nodes h n = None)"
    using eq by (cases "nodes h n"; cases "nodes h' n") simp_all
  show "(\<exists>nd. nodes h' n = Some nd \<and> node_continuation_vertex nd = V)
       = (\<exists>nd. nodes h n = Some nd \<and> node_continuation_vertex nd = V)"
    using eq by (cases "nodes h n"; cases "nodes h' n") auto
qed

lemma same_graph_states:
  assumes "same_graph h h'" and "states h' S = Some s'"
  shows "\<exists>s. states h S = Some s \<and> m_continuation_vertex s = m_continuation_vertex s'
           \<and> m_task s = m_task s'"
proof -
  have "map_option (\<lambda>s. (m_continuation_vertex s, m_task s)) (states h' S)
      = map_option (\<lambda>s. (m_continuation_vertex s, m_task s)) (states h S)"
    using assms(1) unfolding same_graph_def by blast
  then show ?thesis
    using assms(2) by (cases "states h S") auto
qed

lemma same_graph_node_count:
  assumes "same_graph h h'"
  shows "node_count (nodes h') V = node_count (nodes h) V"
  unfolding node_count_def using same_graph_nodes(2) [OF assms] by simp

lemma pool_ok_same_graph:
  assumes "pool_ok h" and "same_graph h h'"
  shows "pool_ok h'"
proof -
  have fl: "free_list h' = free_list h" and vs: "vertices h' = vertices h"
    and ts: "tasks h' = tasks h"
    using assms(2) by (simp_all add: same_graph_def)
  have none: "\<And>n. (nodes h' n = None) = (nodes h n = None)"
    using same_graph_nodes(1) [OF assms(2)] .
  have refs: "node_continuation_vertex nd \<noteq> a"
    if nd: "nodes h' n = Some nd" and a: "a \<in> set (free_list h)" for n nd a
  proof -
    have "\<exists>nd0. nodes h n = Some nd0 \<and> node_continuation_vertex nd0 = node_continuation_vertex nd"
      using same_graph_nodes(2) [OF assms(2), of n "node_continuation_vertex nd"] nd by blast
    then show ?thesis
      using assms(1) a unfolding pool_ok_def by metis
  qed
  have cvs: "m_continuation_vertex s \<noteq> a"
    if s: "states h' S = Some s" and a: "a \<in> set (free_list h)" for S s a
  proof -
    have "\<exists>s0. states h S = Some s0 \<and> m_continuation_vertex s0 = m_continuation_vertex s"
      using same_graph_states [OF assms(2) s] by blast
    then show ?thesis
      using assms(1) a unfolding pool_ok_def by metis
  qed
  show ?thesis
    unfolding pool_ok_def fl vs ts none
    using assms(1) refs cvs unfolding pool_ok_def by blast
qed

lemma counts_ok_same_graph:
  assumes "counts_ok R h" and "same_graph h h'"
  shows "counts_ok R h'"
proof -
  have "vertices h' = vertices h"
    using assms(2) by (simp add: same_graph_def)
  then show ?thesis
    using assms(1) unfolding counts_ok_def same_graph_node_count [OF assms(2)] by simp
qed

lemma released_ok_same_graph:
  assumes "released_ok R own rel h" and "same_graph h h'"
  shows "released_ok R own rel h'"
proof -
  have "vertices h' = vertices h"
    using assms(2) by (simp add: same_graph_def)
  then show ?thesis
    using assms(1) unfolding released_ok_def by simp
qed

lemma links_ok_same_graph:
  assumes "links_ok h" and "same_graph h h'"
  shows "links_ok h'"
proof -
  have vs: "vertices h' = vertices h" and ts: "tasks h' = tasks h"
    using assms(2) by (simp_all add: same_graph_def)
  have a: "vertex_task v = m_task s"
    if s: "states h' S = Some s" and cv: "m_continuation_vertex s \<noteq> nullptr"
      and v: "vertices h (m_continuation_vertex s) = Some v" for S s v
  proof -
    have "\<exists>s0. states h S = Some s0 \<and> m_continuation_vertex s0 = m_continuation_vertex s
        \<and> m_task s0 = m_task s"
      using same_graph_states [OF assms(2) s] by blast
    then show ?thesis
      using assms(1) cv v unfolding links_ok_def by metis
  qed
  have b: "m_task s = T"
    if t: "tasks h T = Some t" and d: "m_dynamic_state t \<noteq> nullptr"
      and s: "states h' (m_dynamic_state t) = Some s" for T t s
  proof -
    have "\<exists>s0. states h (m_dynamic_state t) = Some s0 \<and> m_task s0 = m_task s"
      using same_graph_states [OF assms(2) s] by blast
    then show ?thesis
      using assms(1) t d unfolding links_ok_def by metis
  qed
  show ?thesis
    unfolding links_ok_def vs ts using a b by blast
qed

lemma graph_ok_same_graph:
  "graph_ok R own rel h \<Longrightarrow> same_graph h h' \<Longrightarrow> graph_ok R own rel h'"
  unfolding graph_ok_def
  using pool_ok_same_graph counts_ok_same_graph released_ok_same_graph links_ok_same_graph
  by blast


subsection \<open>Allocation of a dynamic state and of a continuation vertex\<close>

lemma get_dynamic_state_graph_ok:
  assumes ok: "graph_ok R own rel h" and run: "get_dynamic_state T h = Inr (S, h')"
  shows "graph_ok R own rel h'" and "vertices h' = vertices h" and "nodes h' = nodes h"
    and "spawned h' = spawned h" and "S \<noteq> nullptr"
    and "\<exists>t. tasks h' T = Some t \<and> m_dynamic_state t = S"
proof -
  from run obtain tk where T: "T \<noteq> nullptr" and tk: "tasks h T = Some tk"
    by (auto simp: get_dynamic_state_eq split: if_splits option.splits)
  have "graph_ok R own rel h' \<and> vertices h' = vertices h \<and> nodes h' = nodes h
      \<and> spawned h' = spawned h \<and> S \<noteq> nullptr
      \<and> (\<exists>t. tasks h' T = Some t \<and> m_dynamic_state t = S)"
  proof (cases "m_dynamic_state tk \<noteq> nullptr")
    case True
    then have "h' = h" "S = m_dynamic_state tk"
      using run T tk by (simp_all add: get_dynamic_state_eq)
    then show ?thesis
      using ok tk True by simp
  next
    case False
    then obtain a rest where fl: "free_list h = a # rest" and S: "S = a"
      and h': "h' = h\<lparr>free_list := rest,
                       states := (states h)(a \<mapsto> task_dynamic_state_ctor T),
                       tasks := (tasks h)(T \<mapsto> tk\<lparr>m_dynamic_state := a\<rparr>)\<rparr>"
      and dbg: "\<not> (TBB_USE_ASSERT h \<and> a = nullptr)"
      using run T tk by (auto simp: get_dynamic_state_eq split: list.splits if_splits)
    from ok have pool: "pool_ok h" and counts: "counts_ok R h"
      and released: "released_ok R own rel h" and links: "links_ok h"
      by (simp_all add: graph_ok_def)
    have a: "a \<noteq> nullptr" "a \<notin> set rest"
      and rest: "\<And>b. b \<in> set rest \<Longrightarrow> b \<in> set (free_list h)"
      using pool fl by (auto simp: pool_ok_def)
    have no_task: "\<And>T' t. tasks h T' = Some t \<Longrightarrow> m_dynamic_state t \<noteq> a"
      using pool fl unfolding pool_ok_def by (metis list.set_intros(1))
    have "pool_ok h'"
      using pool fl a unfolding pool_ok_def h'
      by (auto simp: task_dynamic_state_ctor_def)
    moreover have "counts_ok R h'"
      using counts by (simp add: counts_ok_def h')
    moreover have "released_ok R own rel h'"
      using released by (simp add: released_ok_def h')
    moreover have "links_ok h'"
      using links no_task a unfolding links_ok_def h'
      by (auto simp: task_dynamic_state_ctor_def split: if_splits)
    ultimately show ?thesis
      using S a by (simp add: graph_ok_def h')
  qed
  then show "graph_ok R own rel h'" and "vertices h' = vertices h" and "nodes h' = nodes h"
    and "spawned h' = spawned h" and "S \<noteq> nullptr"
    and "\<exists>t. tasks h' T = Some t \<and> m_dynamic_state t = S"
    by simp_all
qed


lemma get_continuation_vertex_eq:
  "get_continuation_vertex this h =
     (if this = nullptr then Inl Null_dereference
      else case states h this of
        None \<Rightarrow> Inl (Invalid_access this)
      | Some s \<Rightarrow>
          if m_continuation_vertex s \<noteq> nullptr then Inr (m_continuation_vertex s, h)
          else (case free_list h of
                  [] \<Rightarrow> Inl Bad_alloc
                | a # rest \<Rightarrow>
                    if TBB_USE_ASSERT h \<and> a = nullptr
                    then Inl (Assertion_failed ''Failed to get continuation vertex'')
                    else Inr (a, h\<lparr>free_list := rest,
                                   vertices := (vertices h)(a \<mapsto> continuation_vertex_ctor (m_task s)),
                                   states := (states h)(this \<mapsto> s\<lparr>m_continuation_vertex := a\<rparr>)\<rparr>)))"
  by (simp add: get_continuation_vertex_def deref_def new_object_def cas_continuation_vertex_def
      Let_def TBB_ASSERT_def split: option.splits list.splits)

lemma get_continuation_vertex_graph_ok:
  assumes ok: "graph_ok R own rel h" and run: "get_continuation_vertex S h = Inr (V, h')"
  shows "\<exists>R'. graph_ok R' own rel h'" and "spawned h' = spawned h"
proof -
  from run obtain s where S: "S \<noteq> nullptr" and s: "states h S = Some s"
    by (auto simp: get_continuation_vertex_eq split: if_splits option.splits)
  have "(\<exists>R'. graph_ok R' own rel h') \<and> spawned h' = spawned h"
  proof (cases "m_continuation_vertex s \<noteq> nullptr")
    case True
    then have "h' = h"
      using run S s by (simp add: get_continuation_vertex_eq)
    then show ?thesis
      using ok by auto
  next
    case False
    then obtain a rest where fl: "free_list h = a # rest"
      and h': "h' = h\<lparr>free_list := rest,
                       vertices := (vertices h)(a \<mapsto> continuation_vertex_ctor (m_task s)),
                       states := (states h)(S \<mapsto> s\<lparr>m_continuation_vertex := a\<rparr>)\<rparr>"
      using run S s by (auto simp: get_continuation_vertex_eq split: list.splits if_splits)
    from ok have pool: "pool_ok h" and counts: "counts_ok R h"
      and released: "released_ok R own rel h" and links: "links_ok h"
      by (simp_all add: graph_ok_def)
    have a: "a \<noteq> nullptr" "a \<notin> set rest" "vertices h a = None"
      using pool fl by (auto simp: pool_ok_def)
    have no_node: "\<And>n nd. nodes h n = Some nd \<Longrightarrow> node_continuation_vertex nd \<noteq> a"
      using pool fl unfolding pool_ok_def by (metis list.set_intros(1))
    have no_state: "\<And>S' s'. states h S' = Some s' \<Longrightarrow> m_continuation_vertex s' \<noteq> a"
      using pool fl unfolding pool_ok_def by (metis list.set_intros(1))
    have "node_count (nodes h) a = 0"
      using no_node by (auto simp: node_count_def)
    then have "counts_ok (insert a R) h'"
      using counts a by (auto simp: counts_ok_def h' continuation_vertex_ctor_def)
    moreover have "pool_ok h'"
      using pool fl a unfolding pool_ok_def h' by auto
    moreover have "released_ok (insert a R) own rel h'"
      using released a unfolding released_ok_def h' by (auto split: if_splits)
    moreover have "links_ok h'"
      using links no_state a s unfolding links_ok_def h'
      by (auto simp: continuation_vertex_ctor_def split: if_splits)
    ultimately have "graph_ok (insert a R) own rel h'"
      by (simp add: graph_ok_def)
    then show ?thesis
      by (auto simp: h')
  qed
  then show "\<exists>R'. graph_ok R' own rel h'" and "spawned h' = spawned h"
    by simp_all
qed


subsection \<open>Edge addition\<close>

text \<open>\<open>link_successor S s V v a rest h\<close>: the heap after a node at \<open>a\<close> for the vertex
  \<open>V\<close> has become the head of the list of the state \<open>S\<close>.\<close>

definition link_successor ::
    "ptr \<Rightarrow> task_dynamic_state \<Rightarrow> ptr \<Rightarrow> continuation_vertex \<Rightarrow> ptr \<Rightarrow> ptr list \<Rightarrow> heap \<Rightarrow> heap" where
  "link_successor S s V v a rest h =
     h\<lparr>vertices := (vertices h)(V \<mapsto> v\<lparr>m_ref_count := m_ref_count v + 1\<rparr>),
       free_list := rest,
       nodes := (nodes h)
         (a \<mapsto> \<lparr>m_next_successor = m_successor_list_head s, node_continuation_vertex = V\<rparr>),
       states := (states h)(S \<mapsto> s\<lparr>m_successor_list_head := a\<rparr>)\<rparr>"

lemma add_successor_node_alive_Inr:
  assumes run: "add_successor_node fuel this node h = Some (Inr h')"
    and st: "states h this = Some s" "m_successor_list_head s \<noteq> COMPLETED_FLAG"
  shows "this \<noteq> nullptr \<and> node \<noteq> nullptr
       \<and> (\<exists>n. nodes h node = Some n
            \<and> h' = h\<lparr>nodes := (nodes h)(node \<mapsto> n\<lparr>m_next_successor := m_successor_list_head s\<rparr>),
                     states := (states h)(this \<mapsto> s\<lparr>m_successor_list_head := node\<rparr>)\<rparr>)"
proof (cases fuel)
  case 0
  with run show ?thesis by simp
next
  case (Suc fuel')
  have nonnull: "this \<noteq> nullptr"
    using run by (auto simp: Suc deref_def split: sum.splits if_splits)
  then have d: "deref (states h) this = Inr s"
    using st by (simp add: deref_nonnull)
  show ?thesis
  proof (cases fuel')
    case 0
    with run d show ?thesis
      by (simp add: Suc split: sum.splits)
  next
    case fuel: (Suc fuel'')
    have node: "node \<noteq> nullptr \<and> (\<exists>n. nodes h node = Some n)"
      using run st d
      by (auto simp: Suc fuel deref_def is_alive_def set_next_node_def
          split: sum.splits if_splits option.splits)
    then obtain n where n: "nodes h node = Some n"
      by blast
    show ?thesis
      using run add_successor_node_alive [OF nonnull st _ n, of fuel''] node n nonnull
      by (simp add: Suc fuel del: add_successor_node.simps)
  qed
qed

lemma add_successor_Inr:
  assumes "add_successor fuel this V h = Some (Inr h')"
  shows "h' = h
       \<or> (\<exists>S s v a rest. S \<noteq> nullptr \<and> states h S = Some s
            \<and> m_successor_list_head s \<noteq> COMPLETED_FLAG
            \<and> V \<noteq> nullptr \<and> vertices h V = Some v
            \<and> free_list h = a # rest \<and> a \<noteq> nullptr
            \<and> h' = link_successor S s V v a rest h)"
  using assms
proof (induction fuel arbitrary: this)
  case 0
  then show ?case by simp
next
  case (Suc fuel)
  from Suc.prems obtain s where st: "this \<noteq> nullptr" "states h this = Some s"
    by (auto simp: deref_def split: sum.splits if_splits option.splits)
  then have d: "deref (states h) this = Inr s"
    by (simp add: deref_nonnull)
  show ?case
  proof (cases "m_successor_list_head s = COMPLETED_FLAG")
    case True
    show ?thesis
    proof (cases "m_new_dynamic_state s = nullptr")
      case True
      with Suc.prems d \<open>m_successor_list_head s = COMPLETED_FLAG\<close> have "h' = h"
        by (simp add: is_completed_def split: sum.splits)
      then show ?thesis ..
    next
      case False
      with Suc.prems d \<open>m_successor_list_head s = COMPLETED_FLAG\<close>
      have "add_successor fuel (m_new_dynamic_state s) V h = Some (Inr h')"
        by (simp add: is_completed_def split: sum.splits)
      then show ?thesis
        by (rule Suc.IH)
    qed
  next
    case False
    let ?h2 = "\<lambda>v rest a. h\<lparr>vertices := (vertices h)(V \<mapsto> v\<lparr>m_ref_count := m_ref_count v + 1\<rparr>),
             free_list := rest,
             nodes := (nodes h)(a \<mapsto> successor_list_node_ctor V)\<rparr>"
    from Suc.prems d False obtain v a rest where V: "V \<noteq> nullptr" "vertices h V = Some v"
      and fl: "free_list h = a # rest"
      and node: "add_successor_node fuel this a (?h2 v rest a) = Some (Inr h')"
      by (auto simp: deref_def is_completed_def vertex_reserve_def new_object_def
          split: sum.splits if_splits option.splits list.splits)
    have "states (?h2 v rest a) this = Some s"
      using st by simp
    from add_successor_node_alive_Inr [OF node this False]
    have "a \<noteq> nullptr" and "h' = link_successor this s V v a rest h"
      by (auto simp: link_successor_def successor_list_node_ctor_def)
    then show ?thesis
      using st False V fl by blast
  qed
qed


lemma link_successor_graph_ok:
  assumes ok: "graph_ok R own rel h" and s: "states h S = Some s"
    and v: "vertices h V = Some v" and fl: "free_list h = a # rest"
  shows "graph_ok R own rel (link_successor S s V v a rest h)"
proof -
  let ?h' = "link_successor S s V v a rest h"
  from ok have pool: "pool_ok h" and counts: "counts_ok R h"
    and released: "released_ok R own rel h" and links: "links_ok h"
    by (simp_all add: graph_ok_def)
  have a: "a \<noteq> nullptr" "a \<noteq> COMPLETED_FLAG" "a \<notin> set rest" "nodes h a = None"
    "vertices h a = None"
    using pool fl by (auto simp: pool_ok_def)
  have null: "nodes h nullptr = None" "nodes h COMPLETED_FLAG = None"
    using pool by (simp_all add: pool_ok_def)
  have Va: "V \<noteq> a"
    using v a by auto
  have Vrest: "V \<notin> set rest"
    using pool fl v unfolding pool_ok_def by (metis list.set_intros(2) option.distinct(1))
  have "pool_ok ?h'"
    using pool fl a Va Vrest s unfolding pool_ok_def link_successor_def by auto
  moreover have "counts_ok R ?h'"
  proof -
    have bound: "node_count (nodes h) V + 3 \<le> 2 ^ 64"
      using null a by (intro node_count_bound)
    have "unat (m_ref_count v) = node_count (nodes h) V + (if V \<in> R then 1 else 0)"
      using counts v by (simp add: counts_ok_def)
    then have "unat (m_ref_count v) + 1 < 2 ^ 64"
      using bound by (simp split: if_splits)
    then have "unat (m_ref_count v + 1) = unat (m_ref_count v) + 1"
      using unat_add_of_nat [of "m_ref_count v" 1] by simp
    then show ?thesis
      using counts v a
      by (auto simp: counts_ok_def link_successor_def node_count_add)
  qed
  moreover have "released_ok R own rel ?h'"
    using released v unfolding released_ok_def link_successor_def
    by (auto split: if_splits)
  moreover have "links_ok ?h'"
    using links s v unfolding links_ok_def link_successor_def
    by (auto split: if_splits)
  ultimately show ?thesis
    by (simp add: graph_ok_def)
qed

lemma internal_set_task_order_graph_ok:
  assumes ok: "graph_ok R own rel h"
    and run: "internal_set_task_order fuel pred succ h = Some (Inr h')"
  shows "\<exists>R'. graph_ok R' own rel h'" and "spawned h' = spawned h"
proof -
  from run obtain V h1 where gv: "get_continuation_vertex succ h = Inr (V, h1)"
    and add: "add_successor fuel pred V h1 = Some (Inr h')"
    by (auto simp: internal_set_task_order_def split: sum.splits)
  from get_continuation_vertex_graph_ok [OF ok gv]
  obtain R1 where ok1: "graph_ok R1 own rel h1" and sp1: "spawned h1 = spawned h"
    by blast
  from add_successor_Inr [OF add]
  have "graph_ok R1 own rel h' \<and> spawned h' = spawned h1"
  proof
    assume "h' = h1"
    then show ?thesis
      using ok1 by simp
  next
    assume "\<exists>S s v a rest. S \<noteq> nullptr \<and> states h1 S = Some s
            \<and> m_successor_list_head s \<noteq> COMPLETED_FLAG
            \<and> V \<noteq> nullptr \<and> vertices h1 V = Some v
            \<and> free_list h1 = a # rest \<and> a \<noteq> nullptr
            \<and> h' = link_successor S s V v a rest h1"
    then obtain S s v a rest where "states h1 S = Some s" "vertices h1 V = Some v"
      "free_list h1 = a # rest" and h': "h' = link_successor S s V v a rest h1"
      by blast
    from link_successor_graph_ok [OF ok1 this(1-3)] show ?thesis
      by (simp add: h' link_successor_def)
  qed
  then show "\<exists>R'. graph_ok R' own rel h'" and "spawned h' = spawned h"
    using sp1 by auto
qed


subsection \<open>Release of a continuation vertex\<close>

lemma get_dynamic_state_vertices_update:
  "get_dynamic_state T (h\<lparr>vertices := f\<rparr>) =
     (case get_dynamic_state T h of Inl e \<Rightarrow> Inl e | Inr (S, hg) \<Rightarrow> Inr (S, hg\<lparr>vertices := f\<rparr>))"
  by (simp add: get_dynamic_state_eq split: option.splits list.splits)

lemma release_bypass_Inr:
  assumes "release_bypass V 1 h = Inr (st, h1)"
  shows "V \<noteq> nullptr \<and> (\<exists>v. vertices h V = Some v \<and>
           ((m_ref_count v \<noteq> 1 \<and> st = nullptr
               \<and> h1 = h\<lparr>vertices := (vertices h)(V \<mapsto> v\<lparr>m_ref_count := m_ref_count v - 1\<rparr>)\<rparr>)
          \<or> (m_ref_count v = 1 \<and> st = vertex_task v \<and> st \<noteq> nullptr
               \<and> (\<exists>S hg s. get_dynamic_state (vertex_task v) h = Inr (S, hg)
                     \<and> S \<noteq> nullptr \<and> states hg S = Some s
                     \<and> h1 = hg\<lparr>states := (states hg)(S \<mapsto> s\<lparr>m_continuation_vertex := nullptr\<rparr>),
                              vertices := (vertices h)(V := None)\<rparr>))))"
proof -
  from assms obtain v where V: "V \<noteq> nullptr" and v: "vertices h V = Some v"
    by (auto simp: release_bypass_def deref_def split: if_splits option.splits)
  show ?thesis
  proof (cases "m_ref_count v = 1")
    case False
    then have "st = nullptr"
      "h1 = h\<lparr>vertices := (vertices h)(V \<mapsto> v\<lparr>m_ref_count := m_ref_count v - 1\<rparr>)\<rparr>"
      using assms V v by (simp_all add: release_bypass_def deref_nonnull Let_def)
    then show ?thesis
      using V v False by blast
  next
    case True
    let ?f = "(vertices h)(V \<mapsto> v\<lparr>m_ref_count := 0\<rparr>)"
    from assms V v True obtain S hg' h3 where
      gd: "get_dynamic_state (vertex_task v) (h\<lparr>vertices := ?f\<rparr>) = Inr (S, hg')"
      and un: "unset_dependency S hg' = Inr h3"
      and h1': "h1 = h3\<lparr>vertices := (vertices h3)(V := None)\<rparr>" and st: "st = vertex_task v"
      by (auto simp: release_bypass_def deref_nonnull Let_def split: sum.splits)
    from gd obtain hg where gd': "get_dynamic_state (vertex_task v) h = Inr (S, hg)"
      and hg': "hg' = hg\<lparr>vertices := ?f\<rparr>"
      by (auto simp: get_dynamic_state_vertices_update split: sum.splits)
    from un obtain s where S: "S \<noteq> nullptr" and s: "states hg S = Some s"
      and h3: "h3 = hg'\<lparr>states := (states hg')(S \<mapsto> s\<lparr>m_continuation_vertex := nullptr\<rparr>)\<rparr>"
      by (auto simp: unset_dependency_def deref_def hg' split: if_splits option.splits)
    have h1: "h1 = hg\<lparr>states := (states hg)(S \<mapsto> s\<lparr>m_continuation_vertex := nullptr\<rparr>),
                       vertices := (vertices h)(V := None)\<rparr>"
      by (simp add: h1' h3 hg')
    have "st \<noteq> nullptr"
      using gd' st by (auto simp: get_dynamic_state_eq split: if_splits)
    then show ?thesis
      using V v True st gd' S s h1 by blast
  qed
qed


lemma graph_ok_cong:
  "graph_ok R own rel h \<Longrightarrow> (\<And>x. rel' x = rel x) \<Longrightarrow> graph_ok R own rel' h"
proof -
  assume "graph_ok R own rel h" and "\<And>x. rel' x = rel x"
  moreover from this(2) have "rel' = rel"
    by (rule ext)
  ultimately show ?thesis
    by simp
qed

lemma pool_ok_shrink:
  assumes pool: "pool_ok h" and fl: "free_list h' = free_list h" and ts: "tasks h' = tasks h"
    and ns: "\<And>n nd. nodes h' n = Some nd \<Longrightarrow> nodes h n = Some nd"
    and vs: "\<And>V. vertices h V = None \<Longrightarrow> vertices h' V = None"
    and ss: "\<And>S s'. states h' S = Some s' \<Longrightarrow> m_continuation_vertex s' = nullptr
               \<or> (\<exists>s. states h S = Some s \<and> m_continuation_vertex s = m_continuation_vertex s')"
  shows "pool_ok h'"
proof -
  have none: "nodes h' n = None" if "nodes h n = None" for n
    using ns [of n] that by (cases "nodes h' n") auto
  have cv: "m_continuation_vertex s' \<noteq> a" if "states h' S = Some s'" "a \<in> set (free_list h)" for S s' a
    using ss [OF that(1)] pool that(2) unfolding pool_ok_def by metis
  have nv: "node_continuation_vertex nd \<noteq> a" if "nodes h' n = Some nd" "a \<in> set (free_list h)" for n nd a
    using ns [OF that(1)] pool that(2) unfolding pool_ok_def by metis
  show ?thesis
    unfolding pool_ok_def fl ts
    using pool none vs cv nv unfolding pool_ok_def by blast
qed

lemma drain_decrement_graph_ok:
  assumes ok: "graph_ok R own rel h" and n: "nodes h n = Some nd"
    and v: "vertices h (node_continuation_vertex nd) = Some v" and count: "m_ref_count v \<noteq> 1"
  shows "graph_ok R own rel
           (h\<lparr>vertices := (vertices h)
                 (node_continuation_vertex nd \<mapsto> v\<lparr>m_ref_count := m_ref_count v - 1\<rparr>),
               nodes := (nodes h)(n := None)\<rparr>)"
    (is "graph_ok R own rel ?h'")
proof -
  let ?V = "node_continuation_vertex nd"
  from ok have pool: "pool_ok h" and counts: "counts_ok R h"
    and released: "released_ok R own rel h" and links: "links_ok h"
    by (simp_all add: graph_ok_def)
  have "pool_ok ?h'"
    using v by (intro pool_ok_shrink [OF pool]) (auto split: if_splits)
  moreover have "counts_ok R ?h'"
  proof -
    have c: "unat (m_ref_count v) = node_count (nodes h) ?V + (if ?V \<in> R then 1 else 0)"
      using counts v by (simp add: counts_ok_def)
    have pos: "1 \<le> node_count (nodes h) ?V"
      using n by (rule node_count_pos)
    then have "m_ref_count v \<noteq> 0"
      using c by (auto simp: unat_0_iff [symmetric] simp del: unat_0_iff)
    then have "unat (m_ref_count v - 1) = unat (m_ref_count v) - 1"
      by (rule unat_minus_one)
    then have "unat (m_ref_count v - 1) = node_count (nodes h) ?V - 1 + (if ?V \<in> R then 1 else 0)"
      using c pos by simp
    then show ?thesis
      using counts n by (auto simp: counts_ok_def node_count_remove)
  qed
  moreover have "released_ok R own rel ?h'"
    using released v unfolding released_ok_def by (auto split: if_splits)
  moreover have "links_ok ?h'"
    using links v unfolding links_ok_def by (auto split: if_splits)
  ultimately show ?thesis
    by (simp add: graph_ok_def)
qed

lemma drain_fire_graph_ok:
  assumes ok: "graph_ok R own rel h" and n: "nodes h n = Some nd"
    and v: "vertices h (node_continuation_vertex nd) = Some v" and count: "m_ref_count v = 1"
    and s: "states h S = Some s"
  shows "graph_ok R own (\<lambda>x. rel x + (if x = vertex_task v then 1 else 0))
           (h\<lparr>states := (states h)(S \<mapsto> s\<lparr>m_continuation_vertex := nullptr\<rparr>),
               vertices := (vertices h)(node_continuation_vertex nd := None),
               nodes := (nodes h)(n := None)\<rparr>)"
    (is "graph_ok R own ?rel' ?h'")
proof -
  let ?V = "node_continuation_vertex nd"
  from ok have pool: "pool_ok h" and counts: "counts_ok R h"
    and released: "released_ok R own rel h" and links: "links_ok h"
    by (simp_all add: graph_ok_def)
  have c: "unat (m_ref_count v) = node_count (nodes h) ?V + (if ?V \<in> R then 1 else 0)"
    using counts v by (simp add: counts_ok_def)
  have pos: "1 \<le> node_count (nodes h) ?V"
    using n by (rule node_count_pos)
  have unreserved: "?V \<notin> R"
    using c pos count by (auto split: if_splits)
  then have task: "vertex_task v \<notin> own" "rel (vertex_task v) = 0"
    using released v unfolding released_ok_def by blast+
  have other: "vertex_task v2 \<noteq> vertex_task v"
    if "vertices h V2 = Some v2" "V2 \<notin> R" "V2 \<noteq> ?V" for V2 v2
    using released v unreserved that unfolding released_ok_def by blast
  have "pool_ok ?h'"
    by (intro pool_ok_shrink [OF pool]) (auto split: if_splits)
  moreover have "counts_ok R ?h'"
    using counts n by (auto simp: counts_ok_def node_count_remove)
  moreover have "released_ok R own ?rel' ?h'"
    using released task other unfolding released_ok_def
    by (auto split: if_splits)
  moreover have "links_ok ?h'"
    using links s unfolding links_ok_def by (auto split: if_splits)
  ultimately show ?thesis
    by (simp add: graph_ok_def)
qed


subsection \<open>Completion of a predecessor\<close>

lemma drain_step_graph_ok:
  assumes ok: "graph_ok R own rel h" and n: "nodes h n = Some nd"
    and rb: "release_bypass (node_continuation_vertex nd) 1 h = Inr (st, h1)"
  shows "graph_ok R own (\<lambda>x. rel x + (if st \<noteq> nullptr \<and> x = st then 1 else 0))
           (h1\<lparr>nodes := (nodes h1)(n := None)\<rparr>)"
proof -
  let ?V = "node_continuation_vertex nd"
  from release_bypass_Inr [OF rb] obtain v where v: "vertices h ?V = Some v"
    and cases: "(m_ref_count v \<noteq> 1 \<and> st = nullptr
               \<and> h1 = h\<lparr>vertices := (vertices h)(?V \<mapsto> v\<lparr>m_ref_count := m_ref_count v - 1\<rparr>)\<rparr>)
          \<or> (m_ref_count v = 1 \<and> st = vertex_task v \<and> st \<noteq> nullptr
               \<and> (\<exists>S hg s. get_dynamic_state (vertex_task v) h = Inr (S, hg)
                     \<and> S \<noteq> nullptr \<and> states hg S = Some s
                     \<and> h1 = hg\<lparr>states := (states hg)(S \<mapsto> s\<lparr>m_continuation_vertex := nullptr\<rparr>),
                              vertices := (vertices h)(?V := None)\<rparr>))"
    by blast
  from cases show ?thesis
  proof
    assume a: "m_ref_count v \<noteq> 1 \<and> st = nullptr
               \<and> h1 = h\<lparr>vertices := (vertices h)(?V \<mapsto> v\<lparr>m_ref_count := m_ref_count v - 1\<rparr>)\<rparr>"
    then have "graph_ok R own rel (h1\<lparr>nodes := (nodes h1)(n := None)\<rparr>)"
      using drain_decrement_graph_ok [OF ok n v] by simp
    then show ?thesis
      by (rule graph_ok_cong) (use a in simp)
  next
    assume a: "m_ref_count v = 1 \<and> st = vertex_task v \<and> st \<noteq> nullptr
               \<and> (\<exists>S hg s. get_dynamic_state (vertex_task v) h = Inr (S, hg)
                     \<and> S \<noteq> nullptr \<and> states hg S = Some s
                     \<and> h1 = hg\<lparr>states := (states hg)(S \<mapsto> s\<lparr>m_continuation_vertex := nullptr\<rparr>),
                              vertices := (vertices h)(?V := None)\<rparr>)"
    then obtain S hg s where gd: "get_dynamic_state (vertex_task v) h = Inr (S, hg)"
      and s: "states hg S = Some s"
      and h1: "h1 = hg\<lparr>states := (states hg)(S \<mapsto> s\<lparr>m_continuation_vertex := nullptr\<rparr>),
                       vertices := (vertices h)(?V := None)\<rparr>"
      by blast
    note g = get_dynamic_state_graph_ok [OF ok gd]
    have n': "nodes hg n = Some nd" and v': "vertices hg ?V = Some v"
      using n v g(2,3) by simp_all
    from drain_fire_graph_ok [OF g(1) n' v' _ s] a
    have "graph_ok R own (\<lambda>x. rel x + (if x = vertex_task v then 1 else 0))
        (h1\<lparr>nodes := (nodes h1)(n := None)\<rparr>)"
      by (simp add: h1 g(2))
    then have fired: "graph_ok R own (\<lambda>x. rel x + (if x = vertex_task v then 1 else 0))
        (h1\<lparr>nodes := (nodes h1)(n := None)\<rparr>)" .
    have "vertex_task v \<noteq> nullptr" "st = vertex_task v"
      using a by auto
    then show ?thesis
      by (intro graph_ok_cong [OF fired]) simp
  qed
qed

lemma spawn_graph_ok: "graph_ok R own rel h \<Longrightarrow> graph_ok R own rel (spawn t h)"
  by (erule graph_ok_same_graph) (simp add: same_graph_def spawn_def)

lemma drain_loop_graph_ok:
  "release_successor_list_loop node nt h = Inr (t, h') \<Longrightarrow>
   graph_ok R own (\<lambda>x. count_list (spawned h) x + base x
                        + (if nt \<noteq> nullptr \<and> x = nt then 1 else 0)) h \<Longrightarrow>
   graph_ok R own (\<lambda>x. count_list (spawned h') x + base x
                        + (if t \<noteq> nullptr \<and> x = t then 1 else 0)) h'"
proof (induction node nt h rule: release_successor_list_loop.induct)
  case (1 node nt h)
  note run = "1.prems"(1) and ok = "1.prems"(2)
  show ?case
  proof (cases "node = nullptr")
    case True
    then have "t = nt" "h' = h"
      using run by (simp_all add: release_successor_list_loop.simps [of nullptr])
    then show ?thesis
      using ok by simp
  next
    case False
    from run False obtain nd where n: "nodes h node = Some nd"
      by (auto simp: release_successor_list_loop.simps [of node] get_next_node_def deref_def
          split: sum.splits option.splits)
    have nx: "get_next_node node h = Inr (m_next_successor nd)"
      and gv: "node_get_continuation_vertex node h = Inr (node_continuation_vertex nd)"
      using False n by (simp_all add: get_next_node_def node_get_continuation_vertex_def deref_nonnull)
    from run False nx gv obtain st h1 where
      rb: "release_bypass (node_continuation_vertex nd) 1 h = Inr (st, h1)"
      by (auto simp: release_successor_list_loop.simps [of node] split: sum.splits)
    have nodes1: "nodes h1 = nodes h" and spawned1: "spawned h1 = spawned h"
      using rb by (rule release_bypass_nodes, rule release_bypass_spawned)
    let ?h2 = "h1\<lparr>nodes := (nodes h1)(node := None)\<rparr>"
    have fin: "node_finalize node h1 = Inr ?h2"
      using False n nodes1 by (simp add: node_finalize_def deref_nonnull)
    note step = drain_step_graph_ok [OF ok n rb]
    show ?thesis
    proof (cases "st = nullptr")
      case True
      then have "release_successor_list_loop (m_next_successor nd) nt ?h2 = Inr (t, h')"
        using run False nx gv rb fin by (simp add: release_successor_list_loop.simps [of node])
      moreover have "graph_ok R own (\<lambda>x. count_list (spawned ?h2) x + base x
          + (if nt \<noteq> nullptr \<and> x = nt then 1 else 0)) ?h2"
        by (rule graph_ok_cong [OF step]) (simp add: spawned1 True)
      ultimately show ?thesis
        using "1.IH"(3) [OF False nx gv rb refl fin] True by simp
    next
      case st: False
      show ?thesis
      proof (cases "nt = nullptr")
        case True
        then have "release_successor_list_loop (m_next_successor nd) st ?h2 = Inr (t, h')"
          using run False nx gv rb fin st by (simp add: release_successor_list_loop.simps [of node])
        moreover have "graph_ok R own (\<lambda>x. count_list (spawned ?h2) x + base x
            + (if st \<noteq> nullptr \<and> x = st then 1 else 0)) ?h2"
          by (rule graph_ok_cong [OF step]) (simp add: spawned1 True)
        ultimately show ?thesis
          using "1.IH"(1) [OF False nx gv rb refl fin st True] by simp
      next
        case nt: False
        from release_bypass_task_alive [OF rb st] obtain tk where "tasks h1 st = Some tk"
          by blast
        then have alive: "deref (tasks ?h2) st = Inr tk"
          using st by (simp add: deref_nonnull)
        then have "release_successor_list_loop (m_next_successor nd) nt (spawn st ?h2) = Inr (t, h')"
          using run False nx gv rb fin st nt by (simp add: release_successor_list_loop.simps [of node])
        moreover have "graph_ok R own (\<lambda>x. count_list (spawned (spawn st ?h2)) x + base x
            + (if nt \<noteq> nullptr \<and> x = nt then 1 else 0)) (spawn st ?h2)"
          by (rule graph_ok_cong [OF spawn_graph_ok [OF step, of st]])
             (simp add: spawned1 spawn_def st)
        ultimately show ?thesis
          using "1.IH"(2) [OF False nx gv rb refl fin st nt alive] by simp
      qed
    qed
  qed
qed


lemma task_complete_task_graph_ok:
  assumes run: "task_complete_task T h = Inr (t, h')"
    and ok: "graph_ok R own (\<lambda>x. count_list (spawned h) x + base x) h"
  shows "graph_ok R own (\<lambda>x. count_list (spawned h') x + base x
                            + (if t \<noteq> nullptr \<and> x = t then 1 else 0)) h'"
proof -
  from run obtain tk where tk: "deref (tasks h) T = Inr tk"
    by (auto simp: task_complete_task_def split: sum.splits)
  show ?thesis
  proof (cases "m_dynamic_state tk = nullptr")
    case True
    then have "t = nullptr" "h' = h"
      using run tk by (simp_all add: task_complete_task_def)
    then show ?thesis
      using ok by simp
  next
    case False
    let ?S = "m_dynamic_state tk"
    from run tk False obtain s where s: "states h ?S = Some s"
      by (auto simp: task_complete_task_def complete_task_def fetch_successor_list_def deref_def
          Let_def split: sum.splits option.splits if_splits)
    let ?h1 = "h\<lparr>states := (states h)(?S \<mapsto> s\<lparr>m_successor_list_head := COMPLETED_FLAG\<rparr>)\<rparr>"
    have loop: "release_successor_list_loop (m_successor_list_head s) nullptr ?h1 = Inr (t, h')"
      using run tk False s
      by (simp add: task_complete_task_def complete_task_def fetch_successor_list_def
          deref_nonnull release_successor_list_def)
    have "same_graph h ?h1"
      using s by (simp add: same_graph_def)
    from graph_ok_same_graph [OF ok this]
    have "graph_ok R own (\<lambda>x. count_list (spawned ?h1) x + base x
        + (if nullptr \<noteq> nullptr \<and> x = nullptr then 1 else 0)) ?h1"
      by simp
    from drain_loop_graph_ok [OF loop this] show ?thesis .
  qed
qed

subsection \<open>Submission\<close>

lemma submit_decrement_graph_ok:
  assumes ok: "graph_ok R own rel h" and T: "T \<in> own"
    and v: "vertices h V = Some v" and task: "vertex_task v = T" and count: "m_ref_count v \<noteq> 1"
  shows "graph_ok (R - {V}) (own - {T}) rel
           (h\<lparr>vertices := (vertices h)(V \<mapsto> v\<lparr>m_ref_count := m_ref_count v - 1\<rparr>)\<rparr>)"
    (is "graph_ok ?R' ?own' rel ?h'")
proof -
  from ok have pool: "pool_ok h" and counts: "counts_ok R h"
    and released: "released_ok R own rel h" and links: "links_ok h"
    by (simp_all add: graph_ok_def)
  have reserved: "V \<in> R"
    using released v task T unfolding released_ok_def by blast
  have relT: "rel T = 0"
    using released T unfolding released_ok_def by blast
  have other: "vertex_task v2 \<noteq> T" if "vertices h V2 = Some v2" "V2 \<notin> R" for V2 v2
    using released that T unfolding released_ok_def by blast
  have "pool_ok ?h'"
    using v by (intro pool_ok_shrink [OF pool]) (auto split: if_splits)
  moreover have "counts_ok ?R' ?h'"
  proof -
    have c: "unat (m_ref_count v) = node_count (nodes h) V + 1"
      using counts v reserved by (simp add: counts_ok_def)
    then have "m_ref_count v \<noteq> 0"
      by (auto simp: unat_0_iff [symmetric] simp del: unat_0_iff)
    then have "unat (m_ref_count v - 1) = unat (m_ref_count v) - 1"
      by (rule unat_minus_one)
    then have "unat (m_ref_count v - 1) = node_count (nodes h) V"
      using c by simp
    then show ?thesis
      using counts by (auto simp: counts_ok_def)
  qed
  moreover have "released_ok ?R' ?own' rel ?h'"
  proof -
    have a: "\<forall>x. rel x \<le> 1" and b: "\<forall>x \<in> ?own'. rel x = 0"
      using released unfolding released_ok_def by auto
    have c: "vertex_task v2 \<notin> ?own' \<and> rel (vertex_task v2) = 0"
      if "vertices ?h' V2 = Some v2" "V2 \<notin> ?R'" for V2 v2
    proof (cases "V2 = V")
      case True
      then have "vertex_task v2 = T"
        using that task by auto
      then show ?thesis
        using relT by simp
    next
      case False
      then have "vertices h V2 = Some v2" "V2 \<notin> R"
        using that by auto
      then show ?thesis
        using released unfolding released_ok_def by auto
    qed
    have d: "V1 = V2"
      if "vertices ?h' V1 = Some v1" "vertices ?h' V2 = Some v2" "V1 \<notin> ?R'" "V2 \<notin> ?R'"
        "vertex_task v1 = vertex_task v2" for V1 V2 v1 v2
    proof (cases "V1 = V \<or> V2 = V")
      case True
      have "V1 = V \<and> V2 = V"
      proof (rule ccontr)
        assume "\<not> (V1 = V \<and> V2 = V)"
        then consider "V1 = V" "V2 \<noteq> V" | "V2 = V" "V1 \<noteq> V"
          using True by blast
        then show False
        proof cases
          case 1
          then have "vertices h V2 = Some v2" "V2 \<notin> R" "vertex_task v2 = T"
            using that task by auto
          then show False
            using other by blast
        next
          case 2
          then have "vertices h V1 = Some v1" "V1 \<notin> R" "vertex_task v1 = T"
            using that task by auto
          then show False
            using other by blast
        qed
      qed
      then show ?thesis by simp
    next
      case False
      then have "vertices h V1 = Some v1" "V1 \<notin> R" "vertices h V2 = Some v2" "V2 \<notin> R"
        using that by auto
      then show ?thesis
        using released that(5) unfolding released_ok_def by blast
    qed
    show ?thesis
      unfolding released_ok_def using a b c d by blast
  qed
  moreover have "links_ok ?h'"
    using links v unfolding links_ok_def by (auto split: if_splits)
  ultimately show ?thesis
    by (simp add: graph_ok_def)
qed

lemma submit_fire_graph_ok:
  assumes ok: "graph_ok R own rel h" and T: "T \<in> own"
    and v: "vertices h V = Some v" and task: "vertex_task v = T"
    and s: "states h S = Some s"
  shows "graph_ok (R - {V}) (own - {T}) (\<lambda>x. rel x + (if x = T then 1 else 0))
           (h\<lparr>states := (states h)(S \<mapsto> s\<lparr>m_continuation_vertex := nullptr\<rparr>),
               vertices := (vertices h)(V := None)\<rparr>)"
    (is "graph_ok ?R' ?own' ?rel' ?h'")
proof -
  from ok have pool: "pool_ok h" and counts: "counts_ok R h"
    and released: "released_ok R own rel h" and links: "links_ok h"
    by (simp_all add: graph_ok_def)
  have relT: "rel T = 0"
    using released T unfolding released_ok_def by blast
  have other: "vertex_task v2 \<noteq> T" if "vertices h V2 = Some v2" "V2 \<notin> R" for V2 v2
    using released that T unfolding released_ok_def by blast
  have "pool_ok ?h'"
    by (intro pool_ok_shrink [OF pool]) (auto split: if_splits)
  moreover have "counts_ok ?R' ?h'"
    using counts by (auto simp: counts_ok_def)
  moreover have "released_ok ?R' ?own' ?rel' ?h'"
  proof -
    have a: "\<forall>x. ?rel' x \<le> 1"
      using released relT unfolding released_ok_def by auto
    have b: "\<forall>x \<in> ?own'. ?rel' x = 0"
      using released unfolding released_ok_def by auto
    have c: "vertex_task v2 \<notin> ?own' \<and> ?rel' (vertex_task v2) = 0"
      if "vertices ?h' V2 = Some v2" "V2 \<notin> ?R'" for V2 v2
    proof -
      have "vertices h V2 = Some v2" "V2 \<notin> R"
        using that by (auto split: if_splits)
      then show ?thesis
        using released other unfolding released_ok_def by auto
    qed
    have d: "V1 = V2"
      if "vertices ?h' V1 = Some v1" "vertices ?h' V2 = Some v2" "V1 \<notin> ?R'" "V2 \<notin> ?R'"
        "vertex_task v1 = vertex_task v2" for V1 V2 v1 v2
    proof -
      have "vertices h V1 = Some v1" "V1 \<notin> R" "vertices h V2 = Some v2" "V2 \<notin> R"
        using that by (auto split: if_splits)
      then show ?thesis
        using released that(5) unfolding released_ok_def by blast
    qed
    show ?thesis
      unfolding released_ok_def using a b c d by blast
  qed
  moreover have "links_ok ?h'"
    using links s unfolding links_ok_def by (auto split: if_splits)
  ultimately show ?thesis
    by (simp add: graph_ok_def)
qed

lemma graph_ok_disown:
  assumes "graph_ok R own rel h"
  shows "graph_ok R (own - {T}) rel h"
  using assms unfolding graph_ok_def released_ok_def by auto


lemma task_release_continuation_graph_ok:
  assumes run: "task_release_continuation T h = Inr h'"
    and ok: "graph_ok R own (\<lambda>x. count_list (spawned h) x + base x) h" and T: "T \<in> own"
  shows "\<exists>R'. graph_ok R' (own - {T}) (\<lambda>x. count_list (spawned h') x + base x) h'"
proof -
  let ?rel = "\<lambda>x. count_list (spawned h) x + base x"
  from run obtain tk where Tn: "T \<noteq> nullptr" and tk: "tasks h T = Some tk"
    by (auto simp: task_release_continuation_def deref_def split: if_splits option.splits)
  let ?S = "m_dynamic_state tk"
  have unchanged: ?thesis if "h' = h"
    using graph_ok_disown [OF ok, of T] that by blast
  show ?thesis
  proof (cases "?S = nullptr")
    case True
    then have "h' = h"
      using run Tn tk by (simp add: task_release_continuation_def deref_nonnull)
    then show ?thesis
      by (rule unchanged)
  next
    case S: False
    from run Tn tk S obtain s where s: "states h ?S = Some s"
      by (auto simp: task_release_continuation_def deref_def has_dependencies_def Let_def
          split: if_splits option.splits sum.splits)
    show ?thesis
    proof (cases "m_continuation_vertex s = nullptr")
      case True
      then have "h' = h"
        using run Tn tk S s
        by (simp add: task_release_continuation_def deref_nonnull has_dependencies_def)
      then show ?thesis
        by (rule unchanged)
    next
      case cv: False
      let ?V = "m_continuation_vertex s"
      have "release_continuation ?S h = Inr h'"
        using run Tn tk S s cv
        by (simp add: task_release_continuation_def deref_nonnull has_dependencies_def)
      then obtain st h1 where rb: "release_bypass ?V 1 h = Inr (st, h1)"
        and h': "h' = (if st \<noteq> nullptr then spawn st h1 else h1)"
        using release_continuation_eq [OF S s cv] by (auto split: sum.splits)
      from release_bypass_Inr [OF rb] obtain v where v: "vertices h ?V = Some v"
        and cases: "(m_ref_count v \<noteq> 1 \<and> st = nullptr
               \<and> h1 = h\<lparr>vertices := (vertices h)(?V \<mapsto> v\<lparr>m_ref_count := m_ref_count v - 1\<rparr>)\<rparr>)
          \<or> (m_ref_count v = 1 \<and> st = vertex_task v \<and> st \<noteq> nullptr
               \<and> (\<exists>S' hg s'. get_dynamic_state (vertex_task v) h = Inr (S', hg)
                     \<and> S' \<noteq> nullptr \<and> states hg S' = Some s'
                     \<and> h1 = hg\<lparr>states := (states hg)(S' \<mapsto> s'\<lparr>m_continuation_vertex := nullptr\<rparr>),
                              vertices := (vertices h)(?V := None)\<rparr>))"
        by blast
      from ok have links: "links_ok h"
        by (simp add: graph_ok_def)
      have "m_task s = T"
        using links tk S s unfolding links_ok_def by blast
      moreover have "vertex_task v = m_task s"
        using links s cv v unfolding links_ok_def by blast
      ultimately have task: "vertex_task v = T"
        by simp
      from cases show ?thesis
      proof
        assume a: "m_ref_count v \<noteq> 1 \<and> st = nullptr
               \<and> h1 = h\<lparr>vertices := (vertices h)(?V \<mapsto> v\<lparr>m_ref_count := m_ref_count v - 1\<rparr>)\<rparr>"
        then have "graph_ok (R - {?V}) (own - {T}) ?rel h'"
          using submit_decrement_graph_ok [OF ok T v task] h' by simp
        moreover have "spawned h' = spawned h"
          using a h' by simp
        ultimately show ?thesis
          by auto
      next
        assume a: "m_ref_count v = 1 \<and> st = vertex_task v \<and> st \<noteq> nullptr
               \<and> (\<exists>S' hg s'. get_dynamic_state (vertex_task v) h = Inr (S', hg)
                     \<and> S' \<noteq> nullptr \<and> states hg S' = Some s'
                     \<and> h1 = hg\<lparr>states := (states hg)(S' \<mapsto> s'\<lparr>m_continuation_vertex := nullptr\<rparr>),
                              vertices := (vertices h)(?V := None)\<rparr>)"
        have "get_dynamic_state (vertex_task v) h = Inr (?S, h)"
          using get_dynamic_state_existing [OF Tn tk S] task by simp
        with a s have h1: "h1 = h\<lparr>states := (states h)(?S \<mapsto> s\<lparr>m_continuation_vertex := nullptr\<rparr>),
                              vertices := (vertices h)(?V := None)\<rparr>"
          by auto
        have st: "st = T" "st \<noteq> nullptr"
          using a task Tn by auto
        from submit_fire_graph_ok [OF ok T v task s]
        have "graph_ok (R - {?V}) (own - {T}) (\<lambda>x. ?rel x + (if x = T then 1 else 0)) h1"
          by (simp add: h1)
        note fired = spawn_graph_ok [OF this, of T]
        have eq: "h' = spawn T h1"
          using h' st by simp
        have "graph_ok (R - {?V}) (own - {T}) (\<lambda>x. count_list (spawned h') x + base x) h'"
          unfolding eq by (rule graph_ok_cong [OF fired]) (simp add: spawn_def h1)
        then show ?thesis
          by blast
      qed
    qed
  qed
qed

subsection \<open>Transfer\<close>

lemma set_next_node_same_graph:
  "set_next_node n next h = Inr h' \<Longrightarrow> same_graph h h' \<and> spawned h' = spawned h"
  by (auto simp: set_next_node_def same_graph_def deref_def split: if_splits option.splits)

lemma add_successor_list_loop_same_graph:
  "add_successor_list_loop this current successor_list last_node h = Inr h' \<Longrightarrow>
   same_graph h h' \<and> spawned h' = spawned h"
proof (induction this current successor_list last_node h rule: add_successor_list_loop.induct)
  case (1 this current successor_list last_node h)
  from "1.prems" obtain s where s: "deref (states h) this = Inr s"
    by (auto simp: add_successor_list_loop.simps [of this current] cas_successor_list_head_def
        split: sum.splits)
  then have st: "states h this = Some s"
    by (simp add: deref_Inr)
  show ?case
  proof (cases "m_successor_list_head s = current")
    case True
    then have "h' = h\<lparr>states := (states h)(this \<mapsto> s\<lparr>m_successor_list_head := successor_list\<rparr>)\<rparr>"
      using "1.prems" s
      by (simp add: add_successor_list_loop.simps [of this current] cas_successor_list_head_def)
    then show ?thesis
      using st by (simp add: same_graph_def)
  next
    case False
    then have cas: "cas_successor_list_head this current successor_list h
        = Inr ((False, m_successor_list_head s), h)"
      using s by (simp add: cas_successor_list_head_def)
    with "1.prems" have "\<exists>h2. set_next_node last_node (m_successor_list_head s) h = Inr h2
      \<and> add_successor_list_loop this (m_successor_list_head s) successor_list last_node h2
          = Inr h'"
      by (auto simp: add_successor_list_loop.simps [of this current] split: sum.splits)
    then obtain h2 where
      set: "set_next_node last_node (m_successor_list_head s) h = Inr h2"
      and rec: "add_successor_list_loop this (m_successor_list_head s) successor_list last_node h2
          = Inr h'"
      by blast
    have "same_graph h h2 \<and> spawned h2 = spawned h"
      using set by (rule set_next_node_same_graph)
    moreover have "same_graph h2 h' \<and> spawned h' = spawned h2"
      using "1.IH" [OF cas refl refl refl set rec] .
    ultimately show ?thesis
      using same_graph_trans by auto
  qed
qed

lemma add_successor_list_same_graph:
  assumes run: "add_successor_list fuel this successor_list h = Some (Inr h')"
  shows "same_graph h h' \<and> spawned h' = spawned h"
proof (cases "successor_list = nullptr")
  case True
  then show ?thesis
    using run by (simp add: add_successor_list_def same_graph_refl)
next
  case False
  with run have "\<exists>last_node cur h1.
      set_next_node last_node cur h = Inr h1
      \<and> add_successor_list_loop this cur successor_list last_node h1 = Inr h'"
    by (auto simp: add_successor_list_def Let_def split: option.splits sum.splits)
  then obtain last_node cur h1 where
    set: "set_next_node last_node cur h = Inr h1"
    and loop: "add_successor_list_loop this cur successor_list last_node h1 = Inr h'"
    by blast
  from set_next_node_same_graph [OF set] add_successor_list_loop_same_graph [OF loop]
  show ?thesis
    using same_graph_trans by auto
qed

lemma transfer_successors_to_same_graph:
  assumes "transfer_successors_to fuel this new_dynamic_state h = Some (Inr h')"
  shows "same_graph h h' \<and> spawned h' = spawned h"
proof -
  let ?h3 = "\<lambda>s' s. h\<lparr>states := (states h)
                  (new_dynamic_state \<mapsto> s'\<lparr>m_num_references := m_num_references s' + 1\<rparr>,
                   this \<mapsto> s\<lparr>m_new_dynamic_state := new_dynamic_state,
                               m_successor_list_head := COMPLETED_FLAG\<rparr>)\<rparr>"
  from assms have "\<exists>s' s. states h new_dynamic_state = Some s'
      \<and> ((states h)(new_dynamic_state \<mapsto> s'\<lparr>m_num_references := m_num_references s' + 1\<rparr>)) this
          = Some s
      \<and> add_successor_list fuel new_dynamic_state (m_successor_list_head s) (?h3 s' s)
          = Some (Inr h')"
    by (auto simp: transfer_successors_to_def reserve_def fetch_successor_list_def deref_def
        Let_def split: sum.splits if_splits option.splits)
  then obtain s' s where
    s': "states h new_dynamic_state = Some s'"
    and s: "((states h)(new_dynamic_state \<mapsto> s'\<lparr>m_num_references := m_num_references s' + 1\<rparr>)) this
        = Some s"
    and add: "add_successor_list fuel new_dynamic_state (m_successor_list_head s) (?h3 s' s)
        = Some (Inr h')"
    by blast
  have "same_graph h (?h3 s' s) \<and> spawned (?h3 s' s) = spawned h"
    using s s' by (auto simp: same_graph_def split: if_splits)
  moreover have "same_graph (?h3 s' s) h' \<and> spawned h' = spawned (?h3 s' s)"
    using add by (rule add_successor_list_same_graph)
  ultimately show ?thesis
    using same_graph_trans by auto
qed

lemma task_transfer_successors_to_same_graph:
  assumes "task_transfer_successors_to fuel T other_task_state h = Some (Inr h')"
  shows "same_graph h h' \<and> spawned h' = spawned h"
proof -
  from assms obtain tk where tk: "deref (tasks h) T = Inr tk"
    by (auto simp: task_transfer_successors_to_def split: sum.splits)
  show ?thesis
  proof (cases "m_dynamic_state tk = nullptr")
    case True
    then have "h' = h"
      using assms tk by (simp add: task_transfer_successors_to_def split: sum.splits)
    then show ?thesis
      by (simp add: same_graph_refl)
  next
    case False
    then have "transfer_successors_to fuel (m_dynamic_state tk) other_task_state h = Some (Inr h')"
      using assms tk by (simp add: task_transfer_successors_to_def split: sum.splits)
    then show ?thesis
      by (rule transfer_successors_to_same_graph)
  qed
qed


section \<open>Single spawn: sequences of operations\<close>

text \<open>
  The operations of the dependency graph, each run as a whole: the lazy creation of
  the dynamic state of a task, the addition of an edge between two dynamic states, the
  completion of a task, the transfer of the successors of a task to another state, and
  the submission of a task handle, which is \<open>task_handle_accessor::release\<close> on a
  handle object of the client.
\<close>

datatype operation =
    Get_dynamic_state ptr
  | Set_task_order ptr ptr
  | Complete_task ptr
  | Transfer_successors ptr ptr
  | Submit ptr

text \<open>The system: the heap, the task handle objects of the client by address, and the
  tasks that \<open>complete_task\<close> has returned for bypass so far. The tasks spawned so far
  are in the heap's log.\<close>

record system =
  sys_heap :: heap
  task_handles :: "ptr \<rightharpoonup> task_handle"
  bypassed :: "ptr list"

fun run_operation :: "nat \<Rightarrow> operation \<Rightarrow> system \<Rightarrow> (error + system) option" where
  "run_operation fuel (Get_dynamic_state T) c =
     (case get_dynamic_state T (sys_heap c) of
        Inl e \<Rightarrow> Some (Inl e)
      | Inr (S, h') \<Rightarrow> Some (Inr (c\<lparr>sys_heap := h'\<rparr>)))"
| "run_operation fuel (Set_task_order pred succ) c =
     (case internal_set_task_order fuel pred succ (sys_heap c) of
        None \<Rightarrow> None
      | Some (Inl e) \<Rightarrow> Some (Inl e)
      | Some (Inr h') \<Rightarrow> Some (Inr (c\<lparr>sys_heap := h'\<rparr>)))"
| "run_operation fuel (Complete_task T) c =
     (case task_complete_task T (sys_heap c) of
        Inl e \<Rightarrow> Some (Inl e)
      | Inr (t, h') \<Rightarrow>
          Some (Inr (c\<lparr>sys_heap := h',
                       bypassed := (if t \<noteq> nullptr then bypassed c @ [t] else bypassed c)\<rparr>)))"
| "run_operation fuel (Transfer_successors T other_task_state) c =
     (case task_transfer_successors_to fuel T other_task_state (sys_heap c) of
        None \<Rightarrow> None
      | Some (Inl e) \<Rightarrow> Some (Inl e)
      | Some (Inr h') \<Rightarrow> Some (Inr (c\<lparr>sys_heap := h'\<rparr>)))"
| "run_operation fuel (Submit H) c =
     (case deref (task_handles c) H of
        Inl e \<Rightarrow> Some (Inl e)
      | Inr th \<Rightarrow>
          (case task_handle_accessor_release th (sys_heap c) of
             Inl e \<Rightarrow> Some (Inl e)
           | Inr ((t, th'), h') \<Rightarrow>
               Some (Inr (c\<lparr>sys_heap := h', task_handles := (task_handles c)(H \<mapsto> th')\<rparr>))))"

fun run_operations :: "nat \<Rightarrow> operation list \<Rightarrow> system \<Rightarrow> (error + system) option" where
  "run_operations fuel [] c = Some (Inr c)"
| "run_operations fuel (op # ops) c =
     (case run_operation fuel op c of
        None \<Rightarrow> None
      | Some (Inl e) \<Rightarrow> Some (Inl e)
      | Some (Inr c') \<Rightarrow> run_operations fuel ops c')"

text \<open>\<open>times_released c T\<close>: how often task \<open>T\<close> was spawned or returned for bypass.\<close>

definition times_released :: "system \<Rightarrow> ptr \<Rightarrow> nat" where
  "times_released c T = count_list (spawned (sys_heap c)) T + count_list (bypassed c) T"

text \<open>The tasks owned by a task handle, and the uniqueness of the owner.\<close>

definition owned :: "system \<Rightarrow> ptr set" where
  "owned c = {T. T \<noteq> nullptr \<and> (\<exists>H th. task_handles c H = Some th \<and> m_handle th = T)}"

definition handles_unique :: "system \<Rightarrow> bool" where
  "handles_unique c \<longleftrightarrow>
     (\<forall>H1 H2 th1 th2. task_handles c H1 = Some th1 \<and> task_handles c H2 = Some th2
         \<and> m_handle th1 = m_handle th2 \<and> m_handle th1 \<noteq> nullptr \<longrightarrow> H1 = H2)"

definition system_ok :: "system \<Rightarrow> bool" where
  "system_ok c \<longleftrightarrow>
     handles_unique c \<and> (\<exists>R. graph_ok R (owned c) (times_released c) (sys_heap c))"

lemma system_okI:
  assumes "handles_unique c"
    and "graph_ok R (owned c) (\<lambda>x. count_list (spawned (sys_heap c)) x + count_list (bypassed c) x)
           (sys_heap c)"
  shows "system_ok c"
proof -
  have "times_released c = (\<lambda>x. count_list (spawned (sys_heap c)) x + count_list (bypassed c) x)"
    by (rule ext) (simp add: times_released_def)
  then show ?thesis
    using assms unfolding system_ok_def by auto
qed

lemma system_okE:
  assumes "system_ok c"
  obtains R where "handles_unique c"
    and "graph_ok R (owned c) (\<lambda>x. count_list (spawned (sys_heap c)) x + count_list (bypassed c) x)
           (sys_heap c)"
proof -
  have "times_released c = (\<lambda>x. count_list (spawned (sys_heap c)) x + count_list (bypassed c) x)"
    by (rule ext) (simp add: times_released_def)
  then show ?thesis
    using assms that unfolding system_ok_def by auto
qed

lemma handles_unique_heap_update [simp]:
  "handles_unique (c\<lparr>sys_heap := h'\<rparr>) = handles_unique c"
  by (simp add: handles_unique_def)

lemma handles_unique_bypassed_update [simp]:
  "handles_unique (c\<lparr>bypassed := b\<rparr>) = handles_unique c"
  by (simp add: handles_unique_def)

lemma owned_heap_update [simp]: "owned (c\<lparr>sys_heap := h'\<rparr>) = owned c"
  by (simp add: owned_def)

lemma owned_bypassed_update [simp]: "owned (c\<lparr>bypassed := b\<rparr>) = owned c"
  by (simp add: owned_def)

lemma system_ok_heap_update:
  assumes unique: "handles_unique c"
    and graph: "graph_ok R (owned c)
        (\<lambda>x. count_list (spawned (sys_heap c)) x + count_list (bypassed c) x) h'"
    and log: "spawned h' = spawned (sys_heap c)"
  shows "system_ok (c\<lparr>sys_heap := h'\<rparr>)"
proof (rule system_okI)
  show "handles_unique (c\<lparr>sys_heap := h'\<rparr>)"
    using unique by simp
  show "graph_ok R (owned (c\<lparr>sys_heap := h'\<rparr>))
      (\<lambda>x. count_list (spawned (sys_heap (c\<lparr>sys_heap := h'\<rparr>))) x
           + count_list (bypassed (c\<lparr>sys_heap := h'\<rparr>)) x)
      (sys_heap (c\<lparr>sys_heap := h'\<rparr>))"
    using graph by (simp add: log)
qed

lemma get_dynamic_state_system_ok:
  assumes ok: "system_ok c" and run: "run_operation fuel (Get_dynamic_state T) c = Some (Inr c')"
  shows "system_ok c'"
proof -
  from ok obtain R where unique: "handles_unique c"
    and graph: "graph_ok R (owned c)
        (\<lambda>x. count_list (spawned (sys_heap c)) x + count_list (bypassed c) x) (sys_heap c)"
    by (rule system_okE)
  from run have "\<exists>S h'. get_dynamic_state T (sys_heap c) = Inr (S, h') \<and> c' = c\<lparr>sys_heap := h'\<rparr>"
    by (auto split: sum.splits)
  then obtain S h' where gd: "get_dynamic_state T (sys_heap c) = Inr (S, h')"
    and c': "c' = c\<lparr>sys_heap := h'\<rparr>"
    by blast
  note g = get_dynamic_state_graph_ok [OF graph gd]
  show ?thesis
    unfolding c' using unique g(1) g(4) by (rule system_ok_heap_update)
qed

lemma set_task_order_system_ok:
  assumes ok: "system_ok c"
    and run: "run_operation fuel (Set_task_order pred succ) c = Some (Inr c')"
  shows "system_ok c'"
proof -
  from ok obtain R where unique: "handles_unique c"
    and graph: "graph_ok R (owned c)
        (\<lambda>x. count_list (spawned (sys_heap c)) x + count_list (bypassed c) x) (sys_heap c)"
    by (rule system_okE)
  from run have "\<exists>h'. internal_set_task_order fuel pred succ (sys_heap c) = Some (Inr h')
      \<and> c' = c\<lparr>sys_heap := h'\<rparr>"
    by (auto simp del: internal_set_task_order_def split: option.splits sum.splits)
  then obtain h' where st: "internal_set_task_order fuel pred succ (sys_heap c) = Some (Inr h')"
    and c': "c' = c\<lparr>sys_heap := h'\<rparr>"
    by blast
  from internal_set_task_order_graph_ok [OF graph st]
  obtain R' where "graph_ok R' (owned c)
      (\<lambda>x. count_list (spawned (sys_heap c)) x + count_list (bypassed c) x) h'"
    and "spawned h' = spawned (sys_heap c)"
    by blast
  with unique show ?thesis
    unfolding c' by (rule system_ok_heap_update)
qed

lemma complete_task_system_ok:
  assumes ok: "system_ok c" and run: "run_operation fuel (Complete_task T) c = Some (Inr c')"
  shows "system_ok c'"
proof -
  from ok obtain R where unique: "handles_unique c"
    and graph: "graph_ok R (owned c)
        (\<lambda>x. count_list (spawned (sys_heap c)) x + count_list (bypassed c) x) (sys_heap c)"
    by (rule system_okE)
  from run have "\<exists>t h'. task_complete_task T (sys_heap c) = Inr (t, h')
      \<and> c' = c\<lparr>sys_heap := h',
                 bypassed := (if t \<noteq> nullptr then bypassed c @ [t] else bypassed c)\<rparr>"
    by (auto split: sum.splits)
  then obtain t h' where ct: "task_complete_task T (sys_heap c) = Inr (t, h')"
    and c': "c' = c\<lparr>sys_heap := h',
                     bypassed := (if t \<noteq> nullptr then bypassed c @ [t] else bypassed c)\<rparr>"
    by blast
  from task_complete_task_graph_ok [OF ct graph]
  have drained: "graph_ok R (owned c) (\<lambda>x. count_list (spawned h') x + count_list (bypassed c) x
                          + (if t \<noteq> nullptr \<and> x = t then 1 else 0)) h'" .
  have eq: "owned c' = owned c" "sys_heap c' = h'"
    by (simp_all add: c')
  have "graph_ok R (owned c')
      (\<lambda>x. count_list (spawned (sys_heap c')) x + count_list (bypassed c') x) (sys_heap c')"
    unfolding eq by (rule graph_ok_cong [OF drained]) (simp add: c')
  moreover have "handles_unique c'"
    using unique by (simp add: c')
  ultimately show ?thesis
    by (rule system_okI [rotated])
qed

lemma transfer_successors_system_ok:
  assumes ok: "system_ok c"
    and run: "run_operation fuel (Transfer_successors T S') c = Some (Inr c')"
  shows "system_ok c'"
proof -
  from ok obtain R where unique: "handles_unique c"
    and graph: "graph_ok R (owned c)
        (\<lambda>x. count_list (spawned (sys_heap c)) x + count_list (bypassed c) x) (sys_heap c)"
    by (rule system_okE)
  from run have "\<exists>h'. task_transfer_successors_to fuel T S' (sys_heap c) = Some (Inr h')
      \<and> c' = c\<lparr>sys_heap := h'\<rparr>"
    by (auto split: option.splits sum.splits)
  then obtain h' where tr: "task_transfer_successors_to fuel T S' (sys_heap c) = Some (Inr h')"
    and c': "c' = c\<lparr>sys_heap := h'\<rparr>"
    by blast
  from task_transfer_successors_to_same_graph [OF tr]
  have same: "same_graph (sys_heap c) h'" and log: "spawned h' = spawned (sys_heap c)"
    by simp_all
  from unique graph_ok_same_graph [OF graph same] log show ?thesis
    unfolding c' by (rule system_ok_heap_update)
qed

lemma submit_system_ok:
  assumes ok: "system_ok c" and run: "run_operation fuel (Submit H) c = Some (Inr c')"
  shows "system_ok c'"
proof -
  from ok obtain R where unique: "handles_unique c"
    and graph: "graph_ok R (owned c)
        (\<lambda>x. count_list (spawned (sys_heap c)) x + count_list (bypassed c) x) (sys_heap c)"
    by (rule system_okE)
  from run have "\<exists>th t th' h'. deref (task_handles c) H = Inr th
      \<and> task_handle_accessor_release th (sys_heap c) = Inr ((t, th'), h')
      \<and> c' = c\<lparr>sys_heap := h', task_handles := (task_handles c)(H \<mapsto> th')\<rparr>"
    by (auto split: sum.splits)
  then obtain th t th' h' where th: "deref (task_handles c) H = Inr th"
    and rel: "task_handle_accessor_release th (sys_heap c) = Inr ((t, th'), h')"
    and c': "c' = c\<lparr>sys_heap := h', task_handles := (task_handles c)(H \<mapsto> th')\<rparr>"
    by blast
  from rel have rc: "task_release_continuation (m_handle th) (sys_heap c) = Inr h'"
    and th': "m_handle th' = nullptr"
    by (auto simp: task_handle_accessor_release_def task_handle_release_def split: sum.splits)
  from rc have T: "m_handle th \<noteq> nullptr"
    by (auto simp: task_release_continuation_def deref_def split: if_splits)
  have H: "task_handles c H = Some th"
    using th by (simp add: deref_Inr)
  have own: "m_handle th \<in> owned c"
    unfolding owned_def using T H by blast
  have handles': "task_handles c' = (task_handles c)(H \<mapsto> th')"
    by (simp add: c')
  have own': "owned c' = owned c - {m_handle th}"
  proof (rule set_eqI)
    fix x
    show "x \<in> owned c' \<longleftrightarrow> x \<in> owned c - {m_handle th}"
    proof
      assume "x \<in> owned c'"
      then obtain H2 th2 where x: "x \<noteq> nullptr" and h2: "task_handles c' H2 = Some th2"
        and m: "m_handle th2 = x"
        unfolding owned_def by blast
      have ne: "H2 \<noteq> H"
        using h2 m x th' unfolding handles' by auto
      then have old: "task_handles c H2 = Some th2"
        using h2 unfolding handles' by simp
      then have "x \<in> owned c"
        unfolding owned_def using x m by blast
      moreover have "x \<noteq> m_handle th"
        using unique old H m ne T unfolding handles_unique_def by metis
      ultimately show "x \<in> owned c - {m_handle th}"
        by simp
    next
      assume "x \<in> owned c - {m_handle th}"
      then obtain H2 th2 where x: "x \<noteq> nullptr" "x \<noteq> m_handle th"
        and h2: "task_handles c H2 = Some th2" and m: "m_handle th2 = x"
        unfolding owned_def by blast
      have "H2 \<noteq> H"
        using h2 H m x by auto
      then have "task_handles c' H2 = Some th2"
        using h2 unfolding handles' by simp
      then show "x \<in> owned c'"
        unfolding owned_def using x m by blast
    qed
  qed
  have unique': "handles_unique c'"
    unfolding handles_unique_def handles'
  proof (intro allI impI, elim conjE)
    fix H1 H2 th1 th2
    assume a: "((task_handles c)(H \<mapsto> th')) H1 = Some th1"
      "((task_handles c)(H \<mapsto> th')) H2 = Some th2"
      "m_handle th1 = m_handle th2" "m_handle th1 \<noteq> nullptr"
    have "H1 \<noteq> H" "H2 \<noteq> H"
      using a th' by auto
    then have "task_handles c H1 = Some th1" "task_handles c H2 = Some th2"
      using a by simp_all
    then show "H1 = H2"
      using unique a(3,4) unfolding handles_unique_def by blast
  qed
  from task_release_continuation_graph_ok [OF rc graph own]
  obtain R' where fired: "graph_ok R' (owned c - {m_handle th})
      (\<lambda>x. count_list (spawned h') x + count_list (bypassed c) x) h'"
    by blast
  have eq: "sys_heap c' = h'" "bypassed c' = bypassed c"
    by (simp_all add: c')
  have "graph_ok R' (owned c')
      (\<lambda>x. count_list (spawned (sys_heap c')) x + count_list (bypassed c') x) (sys_heap c')"
    unfolding eq own' by (rule fired)
  with unique' show ?thesis
    by (rule system_okI)
qed

lemma run_operation_system_ok:
  assumes ok: "system_ok c" and run: "run_operation fuel op c = Some (Inr c')"
  shows "system_ok c'"
proof (cases op)
  case (Get_dynamic_state T)
  with run show ?thesis
    using get_dynamic_state_system_ok [OF ok] by blast
next
  case (Set_task_order pred succ)
  with run show ?thesis
    using set_task_order_system_ok [OF ok] by blast
next
  case (Complete_task T)
  with run show ?thesis
    using complete_task_system_ok [OF ok] by blast
next
  case (Transfer_successors T S')
  with run show ?thesis
    using transfer_successors_system_ok [OF ok] by blast
next
  case (Submit H)
  with run show ?thesis
    using submit_system_ok [OF ok] by blast
qed

lemma run_operations_system_ok:
  "system_ok c \<Longrightarrow> run_operations fuel ops c = Some (Inr c') \<Longrightarrow> system_ok c'"
proof (induction ops arbitrary: c)
  case Nil
  then show ?case
    by simp
next
  case (Cons op ops)
  from Cons.prems(2) obtain c1 where step: "run_operation fuel op c = Some (Inr c1)"
    and rest: "run_operations fuel ops c1 = Some (Inr c')"
    by (auto split: option.splits sum.splits)
  from run_operation_system_ok [OF Cons.prems(1) step] have "system_ok c1" .
  from Cons.IH [OF this rest] show ?case .
qed

lemma system_ok_released_once:
  assumes "system_ok c"
  shows "times_released c T \<le> 1"
proof -
  from assms obtain R where "graph_ok R (owned c) (times_released c) (sys_heap c)"
    unfolding system_ok_def by blast
  then have "released_ok R (owned c) (times_released c) (sys_heap c)"
    by (simp add: graph_ok_def)
  then show ?thesis
    by (simp add: released_ok_def)
qed


subsection \<open>The tasks as the client built them\<close>

text \<open>
  Before the first operation the tasks exist and each is owned by one task handle; no
  dynamic state, continuation vertex or successor node was allocated, and nothing was
  spawned.
\<close>

definition initial_system :: "system \<Rightarrow> bool" where
  "initial_system c \<longleftrightarrow>
     nodes (sys_heap c) = Map.empty \<and> vertices (sys_heap c) = Map.empty
     \<and> states (sys_heap c) = Map.empty
     \<and> (\<forall>T t. tasks (sys_heap c) T = Some t \<longrightarrow> m_dynamic_state t = nullptr)
     \<and> distinct (free_list (sys_heap c)) \<and> nullptr \<notin> set (free_list (sys_heap c))
     \<and> COMPLETED_FLAG \<notin> set (free_list (sys_heap c))
     \<and> spawned (sys_heap c) = [] \<and> bypassed c = []
     \<and> handles_unique c"

text \<open>
  Three tasks \<open>0x100\<close>, \<open>0x110\<close> and \<open>0x120\<close> with their handles. The second and the third
  are made successors of the first. The first and the second are submitted, the first
  completes, which releases the second for bypass, and the third is spawned when its
  handle is submitted.
\<close>

definition example_system :: system where
  "example_system =
     \<lparr>sys_heap =
        \<lparr>nodes = Map.empty, vertices = Map.empty, states = Map.empty,
         tasks = [0x100 \<mapsto> \<lparr>m_dynamic_state = 0\<rparr>, 0x110 \<mapsto> \<lparr>m_dynamic_state = 0\<rparr>,
                  0x120 \<mapsto> \<lparr>m_dynamic_state = 0\<rparr>],
         completion_handles = Map.empty,
         free_list = [0x200, 0x210, 0x220, 0x300, 0x400, 0x310, 0x410],
         spawned = [],
         TBB_USE_ASSERT = True\<rparr>,
      task_handles = [0x10 \<mapsto> \<lparr>m_handle = 0x100\<rparr>, 0x18 \<mapsto> \<lparr>m_handle = 0x110\<rparr>,
                      0x20 \<mapsto> \<lparr>m_handle = 0x120\<rparr>],
      bypassed = []\<rparr>"

definition example_operations :: "operation list" where
  "example_operations =
     [Get_dynamic_state 0x100, Get_dynamic_state 0x110, Get_dynamic_state 0x120,
      Set_task_order 0x200 0x210, Set_task_order 0x200 0x220,
      Submit 0x10, Submit 0x18, Complete_task 0x100, Submit 0x20]"


lemma initial_system_ok:
  assumes "initial_system c"
  shows "system_ok c"
proof (rule system_okI [where R = "{}"])
  show "handles_unique c"
    using assms by (simp add: initial_system_def)
  have "pool_ok (sys_heap c)"
    unfolding pool_ok_def
  proof (intro conjI ballI allI impI)
    fix a T t
    assume "a \<in> set (free_list (sys_heap c))" and "tasks (sys_heap c) T = Some t"
    then show "m_dynamic_state t \<noteq> a"
      using assms unfolding initial_system_def by metis
  qed (use assms in \<open>simp_all add: initial_system_def\<close>)
  moreover have "counts_ok {} (sys_heap c)"
    using assms by (simp add: initial_system_def counts_ok_def)
  moreover have "released_ok {} (owned c)
      (\<lambda>x. count_list (spawned (sys_heap c)) x + count_list (bypassed c) x) (sys_heap c)"
    using assms by (simp add: initial_system_def released_ok_def)
  moreover have "links_ok (sys_heap c)"
    using assms by (simp add: initial_system_def links_ok_def)
  ultimately show "graph_ok {} (owned c)
      (\<lambda>x. count_list (spawned (sys_heap c)) x + count_list (bypassed c) x) (sys_heap c)"
    by (simp add: graph_ok_def)
qed


subsection \<open>Runs that fail\<close>

text \<open>
  The result of an operation that fails drops the heap, and with it the log of the calls
  of \<^verbatim>\<open>d1::spawn\<close>. Of the operations only the completion of a task can fail after it
  has spawned: \<^verbatim>\<open>release_continuation\<close> calls \<^verbatim>\<open>d1::spawn\<close> as its last statement, and
  the other operations do not call it. \<open>release_successor_list_spawned\<close> is the loop of
  \<^verbatim>\<open>release_successor_list\<close> once more, with the log of the calls as its value, also
  when a step fails: the tasks spawned until the loop returns or fails.
\<close>

function release_successor_list_spawned :: "ptr \<Rightarrow> ptr \<Rightarrow> heap \<Rightarrow> ptr list" where
  "release_successor_list_spawned node next_task h =
     (if node \<noteq> nullptr then
        (case get_next_node node h of Inl e \<Rightarrow> spawned h
         | Inr next_node \<Rightarrow>
             (case node_get_continuation_vertex node h of Inl e \<Rightarrow> spawned h
              | Inr v \<Rightarrow>
                  (case release_bypass v 1 h of Inl e \<Rightarrow> spawned h
                   | Inr (successor_task, h1) \<Rightarrow>
                       (case node_finalize node h1 of Inl e \<Rightarrow> spawned h1
                        | Inr h2 \<Rightarrow>
                            if successor_task \<noteq> nullptr then
                              if next_task = nullptr then
                                release_successor_list_spawned next_node successor_task h2
                              else
                                (case deref (tasks h2) successor_task of Inl e \<Rightarrow> spawned h2
                                 | Inr _ \<Rightarrow>
                                     release_successor_list_spawned next_node next_task
                                       (spawn successor_task h2))
                            else release_successor_list_spawned next_node next_task h2))))
      else spawned h)"
  by pat_completeness auto

termination release_successor_list_spawned
proof (relation "measure (\<lambda>(node, next_task, h). card (dom (nodes h)))", goal_cases)
  case 1
  show ?case by simp
next
  case (2 node next_task h next_node v x successor_task h1 h2)
  then show ?case
    using node_finalize_card [of node h1 h2 h] release_bypass_nodes [of v 1 h successor_task h1]
    by simp
next
  case (3 node next_task h next_node v x successor_task h1 h2 t)
  then show ?case
    using node_finalize_card [of node h1 h2 h] release_bypass_nodes [of v 1 h successor_task h1]
    by (simp add: spawn_def)
next
  case (4 node next_task h next_node v x successor_task h1 h2)
  then show ?case
    using node_finalize_card [of node h1 h2 h] release_bypass_nodes [of v 1 h successor_task h1]
    by simp
qed

declare release_successor_list_spawned.simps [simp del]

text \<open>The same for \<^verbatim>\<open>task_dynamic_state::complete_task\<close> and
  \<^verbatim>\<open>task_handle_task::complete_task\<close>.\<close>

definition complete_task_spawned :: "ptr \<Rightarrow> heap \<Rightarrow> ptr list" where
  "complete_task_spawned this h =
     (case fetch_successor_list this COMPLETED_FLAG h of Inl e \<Rightarrow> spawned h
      | Inr (list, h1) \<Rightarrow> release_successor_list_spawned list nullptr h1)"

definition task_complete_task_spawned :: "ptr \<Rightarrow> heap \<Rightarrow> ptr list" where
  "task_complete_task_spawned this h =
     (case deref (tasks h) this of Inl e \<Rightarrow> spawned h
      | Inr t \<Rightarrow>
          let current_state = m_dynamic_state t in
          if current_state \<noteq> nullptr then complete_task_spawned current_state h
          else spawned h)"

text \<open>
  \<open>times_released_by fuel ops c T\<close>: how often task \<open>T\<close> was spawned or returned for
  bypass when the run of the operations \<open>ops\<close> from \<open>c\<close> ends: after the last operation,
  or where an operation fails or runs out of fuel. A completion that fails has not
  returned its task for bypass.
\<close>

fun times_released_until_failure :: "operation \<Rightarrow> system \<Rightarrow> ptr \<Rightarrow> nat" where
  "times_released_until_failure (Complete_task T') c T =
     count_list (task_complete_task_spawned T' (sys_heap c)) T + count_list (bypassed c) T"
| "times_released_until_failure (Get_dynamic_state T') c T = times_released c T"
| "times_released_until_failure (Set_task_order pred succ) c T = times_released c T"
| "times_released_until_failure (Transfer_successors T' other_task_state) c T = times_released c T"
| "times_released_until_failure (Submit H) c T = times_released c T"

fun times_released_by :: "nat \<Rightarrow> operation list \<Rightarrow> system \<Rightarrow> ptr \<Rightarrow> nat" where
  "times_released_by fuel [] c T = times_released c T"
| "times_released_by fuel (op # ops) c T =
     (case run_operation fuel op c of
        Some (Inr c') \<Rightarrow> times_released_by fuel ops c' T
      | _ \<Rightarrow> times_released_until_failure op c T)"

lemma release_successor_list_spawned_returned:
  "release_successor_list_loop node nt h = Inr (t, h') \<Longrightarrow>
   release_successor_list_spawned node nt h = spawned h'"
proof (induction node nt h rule: release_successor_list_loop.induct)
  case (1 node nt h)
  show ?case
  proof (cases "node = nullptr")
    case True
    then show ?thesis
      using "1.prems"
      by (simp add: release_successor_list_loop.simps [of nullptr]
          release_successor_list_spawned.simps [of nullptr])
  next
    case False
    then show ?thesis
      using "1.prems" "1.IH"
      by (subst release_successor_list_spawned.simps)
         (auto simp: release_successor_list_loop.simps [of node]
           split: sum.splits prod.splits if_splits)
  qed
qed

lemma times_released_by_returned:
  "run_operations fuel ops c = Some (Inr c') \<Longrightarrow>
   times_released_by fuel ops c T = times_released c' T"
  by (induction ops arbitrary: c) (auto split: option.splits sum.splits)

lemma graph_ok_released_once: "graph_ok R own rel h \<Longrightarrow> rel T \<le> 1"
  by (simp add: graph_ok_def released_ok_def)


lemma drain_released_once:
  "graph_ok R own (\<lambda>x. count_list (spawned h) x + base x
                        + (if nt \<noteq> nullptr \<and> x = nt then 1 else 0)) h \<Longrightarrow>
   count_list (release_successor_list_spawned node nt h) T + base T \<le> 1"
proof (induction node nt h rule: release_successor_list_spawned.induct)
  case (1 node nt h)
  note ok = "1.prems"
  have now: "count_list (spawned h) T + base T \<le> 1"
    using graph_ok_released_once [OF ok, of T] by simp
  show ?case
  proof (cases "node = nullptr")
    case True
    then show ?thesis
      using now by (simp add: release_successor_list_spawned.simps [of nullptr])
  next
    case False
    show ?thesis
    proof (cases "nodes h node")
      case None
      then have "get_next_node node h = Inl (Invalid_access node)"
        using False by (simp add: get_next_node_def deref_def)
      then show ?thesis
        using now False by (simp add: release_successor_list_spawned.simps [of node])
    next
      case (Some nd)
      note n = Some
      have nx: "get_next_node node h = Inr (m_next_successor nd)"
        and gv: "node_get_continuation_vertex node h = Inr (node_continuation_vertex nd)"
        using False n
        by (simp_all add: get_next_node_def node_get_continuation_vertex_def deref_nonnull)
      show ?thesis
      proof (cases "release_bypass (node_continuation_vertex nd) 1 h")
        case (Inl e)
        then show ?thesis
          using now False nx gv by (simp add: release_successor_list_spawned.simps [of node])
      next
        case (Inr r)
        obtain st h1 where r: "r = (st, h1)"
          by (cases r)
        have rb: "release_bypass (node_continuation_vertex nd) 1 h = Inr (st, h1)"
          using Inr r by simp
        have nodes1: "nodes h1 = nodes h" and spawned1: "spawned h1 = spawned h"
          using rb by (rule release_bypass_nodes, rule release_bypass_spawned)
        let ?h2 = "h1\<lparr>nodes := (nodes h1)(node := None)\<rparr>"
        have fin: "node_finalize node h1 = Inr ?h2"
          using False n nodes1 by (simp add: node_finalize_def deref_nonnull)
        note step = drain_step_graph_ok [OF ok n rb]
        show ?thesis
        proof (cases "st = nullptr")
          case True
          have "release_successor_list_spawned node nt h =
              release_successor_list_spawned (m_next_successor nd) nt ?h2"
            using False nx gv rb fin True
            by (simp add: release_successor_list_spawned.simps [of node])
          moreover have "graph_ok R own (\<lambda>x. count_list (spawned ?h2) x + base x
              + (if nt \<noteq> nullptr \<and> x = nt then 1 else 0)) ?h2"
            by (rule graph_ok_cong [OF step]) (simp add: spawned1 True)
          ultimately show ?thesis
            using "1.IH"(3) [OF False nx gv rb refl fin] True by simp
        next
          case st: False
          show ?thesis
          proof (cases "nt = nullptr")
            case True
            have "release_successor_list_spawned node nt h =
                release_successor_list_spawned (m_next_successor nd) st ?h2"
              using False nx gv rb fin st True
              by (simp add: release_successor_list_spawned.simps [of node])
            moreover have "graph_ok R own (\<lambda>x. count_list (spawned ?h2) x + base x
                + (if st \<noteq> nullptr \<and> x = st then 1 else 0)) ?h2"
              by (rule graph_ok_cong [OF step]) (simp add: spawned1 True)
            ultimately show ?thesis
              using "1.IH"(1) [OF False nx gv rb refl fin st True] by simp
          next
            case nt: False
            from release_bypass_task_alive [OF rb st] obtain tk where "tasks h1 st = Some tk"
              by blast
            then have alive: "deref (tasks ?h2) st = Inr tk"
              using st by (simp add: deref_nonnull)
            have "release_successor_list_spawned node nt h =
                release_successor_list_spawned (m_next_successor nd) nt (spawn st ?h2)"
              using False nx gv rb fin st nt alive
              by (simp add: release_successor_list_spawned.simps [of node])
            moreover have "graph_ok R own (\<lambda>x. count_list (spawned (spawn st ?h2)) x + base x
                + (if nt \<noteq> nullptr \<and> x = nt then 1 else 0)) (spawn st ?h2)"
              by (rule graph_ok_cong [OF spawn_graph_ok [OF step, of st]])
                 (simp add: spawned1 spawn_def st)
            ultimately show ?thesis
              using "1.IH"(2) [OF False nx gv rb refl fin st nt alive] by simp
          qed
        qed
      qed
    qed
  qed
qed

lemma task_complete_task_released_once:
  assumes ok: "graph_ok R own (\<lambda>x. count_list (spawned h) x + base x) h"
  shows "count_list (task_complete_task_spawned T' h) T + base T \<le> 1"
proof -
  have now: "count_list (spawned h) T + base T \<le> 1"
    using graph_ok_released_once [OF ok, of T] by simp
  show ?thesis
  proof (cases "deref (tasks h) T'")
    case (Inl e)
    then show ?thesis
      using now by (simp add: task_complete_task_spawned_def)
  next
    case (Inr tk)
    show ?thesis
    proof (cases "m_dynamic_state tk = nullptr")
      case True
      then show ?thesis
        using now Inr by (simp add: task_complete_task_spawned_def)
    next
      case False
      let ?S = "m_dynamic_state tk"
      show ?thesis
      proof (cases "states h ?S")
        case None
        then have "fetch_successor_list ?S COMPLETED_FLAG h = Inl (Invalid_access ?S)"
          using False by (simp add: fetch_successor_list_def deref_def)
        then show ?thesis
          using now Inr False by (simp add: task_complete_task_spawned_def complete_task_spawned_def)
      next
        case (Some s)
        let ?h1 = "h\<lparr>states := (states h)(?S \<mapsto> s\<lparr>m_successor_list_head := COMPLETED_FLAG\<rparr>)\<rparr>"
        have log: "task_complete_task_spawned T' h =
            release_successor_list_spawned (m_successor_list_head s) nullptr ?h1"
          using Inr False Some
          by (simp add: task_complete_task_spawned_def complete_task_spawned_def
              fetch_successor_list_def deref_nonnull)
        have "same_graph h ?h1"
          using Some by (simp add: same_graph_def)
        from graph_ok_same_graph [OF ok this]
        have "graph_ok R own (\<lambda>x. count_list (spawned ?h1) x + base x
            + (if nullptr \<noteq> nullptr \<and> x = nullptr then 1 else 0)) ?h1"
          by simp
        from drain_released_once [OF this] show ?thesis
          unfolding log .
      qed
    qed
  qed
qed

lemma times_released_until_failure_once:
  assumes "system_ok c"
  shows "times_released_until_failure op c T \<le> 1"
proof (cases op)
  case (Complete_task T')
  from assms obtain R where
    "graph_ok R (owned c) (\<lambda>x. count_list (spawned (sys_heap c)) x + count_list (bypassed c) x)
       (sys_heap c)"
    by (rule system_okE)
  from task_complete_task_released_once [OF this] show ?thesis
    by (simp add: Complete_task)
qed (use system_ok_released_once [OF assms] in simp_all)

lemma times_released_by_once:
  "system_ok c \<Longrightarrow> times_released_by fuel ops c T \<le> 1"
proof (induction ops arbitrary: c)
  case Nil
  from system_ok_released_once [OF Nil] show ?case
    by simp
next
  case (Cons op ops)
  show ?case
  proof (cases "\<exists>c'. run_operation fuel op c = Some (Inr c')")
    case True
    then obtain c' where step: "run_operation fuel op c = Some (Inr c')"
      by blast
    from run_operation_system_ok [OF Cons.prems step] have "system_ok c'" .
    from Cons.IH [OF this] show ?thesis
      using step by simp
  next
    case False
    then have "times_released_by fuel (op # ops) c T = times_released_until_failure op c T"
      by (auto split: option.splits sum.splits)
    then show ?thesis
      using times_released_until_failure_once [OF Cons.prems] by simp
  qed
qed


subsection \<open>Single spawn\<close>

text \<open>
  With the flag of the completed state passed by \<^verbatim>\<open>transfer_successors_to\<close>, a state
  that transferred its successors cannot be completed afterwards: the drain follows the
  sentinel as a node address.
\<close>

lemma complete_task_after_transfer:
  assumes "this \<noteq> nullptr" and "states h this = Some s"
    and "m_successor_list_head s = COMPLETED_FLAG" and "nodes h COMPLETED_FLAG = None"
  shows "complete_task this h = Inl (Invalid_access COMPLETED_FLAG)"
proof -
  have "COMPLETED_FLAG \<noteq> nullptr"
    by (simp add: COMPLETED_FLAG_def nullptr_def)
  then show ?thesis
    using assms
    by (simp add: complete_task_def fetch_successor_list_def deref_nonnull
        release_successor_list_def release_successor_list_loop.simps [of COMPLETED_FLAG]
        get_next_node_def deref_def)
qed

text \<open>
  The tasks \<open>0x100\<close>, \<open>0x110\<close> and \<open>0x120\<close> again. The third is made a successor of the
  first, and the first transfers its successors to the state of the second. The second
  and the third are submitted; the second completes, which releases the third for
  bypass. The completion of the first then fails in the drain.
\<close>

definition example_transfer :: "operation list" where
  "example_transfer =
     [Get_dynamic_state 0x100, Get_dynamic_state 0x110, Get_dynamic_state 0x120,
      Set_task_order 0x200 0x220, Transfer_successors 0x100 0x210,
      Submit 0x18, Submit 0x20, Complete_task 0x110, Complete_task 0x100]"

lemma example_transfer_run:
  "(case run_operations 4 (butlast example_transfer) example_system of
      Some (Inr c') \<Rightarrow> spawned (sys_heap c') = [] \<and> bypassed c' = [0x120]
    | _ \<Rightarrow> False)
   \<and> (case run_operations 4 example_transfer example_system of
      Some (Inl e) \<Rightarrow> e = Invalid_access COMPLETED_FLAG
    | _ \<Rightarrow> False)"
  by code_simp

text \<open>
  C3. Single spawn. Start from tasks that were built and are owned by task handles, with
  no dynamic state yet, and run any sequence of creations of a dynamic state, edge
  additions (\<^verbatim>\<open>internal_set_task_order\<close>), completions (\<^verbatim>\<open>complete_task\<close>), transfers of
  the successors (\<^verbatim>\<open>transfer_successors_to\<close>) and submissions of a handle
  (\<^verbatim>\<open>task_handle_accessor::release\<close>), each operation running to its end before the
  next one starts. However the run ends, after the last operation or where an
  operation fails, every task was passed to \<^verbatim>\<open>d1::spawn\<close> or returned for bypass at
  most once, by the completions and the submissions together. In particular this holds
  in the state that a run without failure returns.
\<close>

theorem single_spawn:
  assumes "initial_system c"
  shows "times_released_by fuel ops c T \<le> 1
         \<and> (\<forall>c'. run_operations fuel ops c = Some (Inr c') \<longrightarrow> times_released c' T \<le> 1)"
proof -
  from assms have "system_ok c"
    by (rule initial_system_ok)
  then have "times_released_by fuel ops c T \<le> 1"
    by (rule times_released_by_once)
  then show ?thesis
    by (auto simp: times_released_by_returned [symmetric])
qed

theorem single_spawn_witness:
  "initial_system example_system
   \<and> (\<exists>c'. run_operations 4 example_operations example_system = Some (Inr c')
          \<and> spawned (sys_heap c') = [0x120] \<and> bypassed c' = [0x110]
          \<and> (\<forall>T. times_released c' T \<le> 1))
   \<and> times_released_by 4 example_transfer example_system 0x120 = 1
   \<and> (\<forall>T. times_released_by 4 example_transfer example_system T \<le> 1)"
proof -
  have init: "initial_system example_system"
    unfolding initial_system_def handles_unique_def
    by (auto simp: example_system_def nullptr_def COMPLETED_FLAG_def split: if_splits)
  have "case run_operations 4 example_operations example_system of
          Some (Inr c') \<Rightarrow> spawned (sys_heap c') = [0x120] \<and> bypassed c' = [0x110]
        | _ \<Rightarrow> False"
    by code_simp
  then obtain c' where run: "run_operations 4 example_operations example_system = Some (Inr c')"
    and log: "spawned (sys_heap c') = [0x120]" "bypassed c' = [0x110]"
    by (auto split: option.splits sum.splits)
  have once: "times_released_by 4 example_transfer example_system 0x120 = 1"
    by code_simp
  from single_spawn [OF init, of 4 example_operations] run
  have "\<forall>T. times_released c' T \<le> 1"
    by blast
  moreover from single_spawn [OF init, of 4 example_transfer]
  have "\<forall>T. times_released_by 4 example_transfer example_system T \<le> 1"
    by blast
  ultimately show ?thesis
    using init run log once by blast
qed

end
